theory Spec2Isabelle
  imports Main "HOL-Library.Word"
begin

section \<open>supersh: a shallow embedding of \<open>supersh-beta.c\<close>\<close>

text \<open>
  The shell is one C file. Its state is two global linked lists (\<open>histlist\<close>,
  \<open>joblist\<close>), the command counter of \<open>main\<close> and the process environment. The
  embedding keeps the functions of the source under their names.

  Conventions of the model:
  \<^item> a line buffer is a \<open>char list\<close> that holds its terminating NUL; a \<open>char*\<close> into the
    buffer \<open>in\<close> is an offset, \<open>in\<close> itself being offset 0;
  \<^item> \<open>BUFSIZ\<close> comes from \<open>stdio.h\<close> and is a parameter;
  \<^item> \<open>unsigned int\<close> has 32 bits and \<open>unsigned long\<close> 64 bits;
  \<^item> \<open>malloc\<close> and \<open>calloc\<close> are taken to succeed (the \<open>shfail\<close> exits on a null
    result are not followed);
  \<^item> what the program prints is a trace of events, the numbers of a \<open>printf\<close> kept as
    numbers;
  \<^item> what the operating system answers (\<open>fgets\<close>, \<open>getuid\<close>, \<open>fork\<close>,
    \<open>waitpid\<close>, \<open>execvp\<close>) is an input of each iteration, the record \<open>world\<close>.
\<close>

subsection \<open>C strings in a buffer\<close>

type_synonym buffer = "char list"

definition NUL :: char where
  "NUL = CHR 0x00"

text \<open>The six characters of \<open>" \\t\\r\\n\\v\\f"\<close>, which are also those of \<open>isspace\<close> in the
  C locale.\<close>

definition isspace :: "char \<Rightarrow> bool" where
  "isspace c \<longleftrightarrow> c = CHR '' '' \<or> c = CHR 0x09 \<or> c = CHR 0x0A \<or> c = CHR 0x0B
     \<or> c = CHR 0x0C \<or> c = CHR 0x0D"

text \<open>\<open>*p\<close>. A read beyond the modelled buffer gives NUL; on a buffer that holds its
  terminator the source never reads there.\<close>

definition peek :: "buffer \<Rightarrow> nat \<Rightarrow> char" where
  "peek buf p = (if p < length buf then buf ! p else NUL)"

text \<open>The C string that starts at offset \<open>p\<close>.\<close>

definition cstr :: "buffer \<Rightarrow> nat \<Rightarrow> string" where
  "cstr buf p = takeWhile (\<lambda>c. c \<noteq> NUL) (drop p buf)"

definition strlen :: "buffer \<Rightarrow> nat \<Rightarrow> nat" where
  "strlen buf p = length (cstr buf p)"

text \<open>\<open>strspn(p, " \\t\\r\\n\\v\\f")\<close> and \<open>strcspn(p, " \\t\\r\\n\\v\\f")\<close>.\<close>

definition strspn :: "buffer \<Rightarrow> nat \<Rightarrow> nat" where
  "strspn buf p = length (takeWhile isspace (drop p buf))"

definition strcspn :: "buffer \<Rightarrow> nat \<Rightarrow> nat" where
  "strcspn buf p = length (takeWhile (\<lambda>c. c \<noteq> NUL \<and> \<not> isspace c) (drop p buf))"

text \<open>\<open>strchr(p, c)\<close> for a character \<open>c\<close> other than NUL: the offset of the first \<open>c\<close> of
  the string at \<open>p\<close>, or the null pointer.\<close>

definition strchr :: "buffer \<Rightarrow> nat \<Rightarrow> char \<Rightarrow> nat option" where
  "strchr buf p c =
     (let s = cstr buf p
      in if c \<in> set s then Some (p + length (takeWhile (\<lambda>d. d \<noteq> c) s)) else None)"

text \<open>\<open>strtoul(s, NULL, 10)\<close>: leading white space, an optional sign, the longest run of
  decimal digits; 0 when there is no digit, \<open>ULONG_MAX\<close> on overflow, the negation modulo
  \<open>2 ^ 64\<close> after a minus sign.\<close>

definition ULONG_MAX :: nat where
  "ULONG_MAX = 2 ^ 64 - 1"

definition isdigit :: "char \<Rightarrow> bool" where
  "isdigit c \<longleftrightarrow> 48 \<le> (of_char c :: nat) \<and> (of_char c :: nat) \<le> 57"

definition digits_value :: "string \<Rightarrow> nat" where
  "digits_value ds = foldl (\<lambda>a c. 10 * a + (of_char c - 48)) 0 ds"

definition strtoul :: "string \<Rightarrow> nat" where
  "strtoul s =
     (let s1 = dropWhile isspace s;
          neg = (s1 \<noteq> [] \<and> hd s1 = CHR ''-'');
          s2 = (if s1 \<noteq> [] \<and> (hd s1 = CHR ''-'' \<or> hd s1 = CHR ''+'') then tl s1 else s1);
          v = digits_value (takeWhile isdigit s2)
      in if v > ULONG_MAX then ULONG_MAX
         else if neg then (2 ^ 64 - v) mod 2 ^ 64
         else v)"

subsection \<open>Data model\<close>

text \<open>The handlers that \<open>Input.internal\<close> can point to.\<close>

datatype builtin =
    Builtin_echo | Builtin_exit | Builtin_help | Builtin_history | Builtin_jobs | Builtin_set

text \<open>
  \<open>struct Input_def\<close>. The \<open>next\<close> pointer is the list structure of \<open>histlist\<close>.
  \<open>cmdvec\<close> is \<open>None\<close> for the null pointer a \<open>calloc\<close>'ed node holds; its elements are
  the strings the \<open>char*\<close> elements point to once \<open>parse_inbuf\<close> has returned (no later
  code writes to a line buffer), \<open>None\<close> for a null element.
\<close>

record Input =
  cmdvec :: "string option list option"
  internal :: "builtin option"
  background :: bool
  historical :: bool

text \<open>What \<open>calloc(1, sizeof(Input))\<close> returns.\<close>

definition calloc_Input :: Input where
  "calloc_Input = \<lparr>cmdvec = None, internal = None, background = False, historical = False\<rparr>"

datatype signal = SIGABRT | SIGFPE | SIGILL | SIGINT | SIGSEGV | SIGTERM | SIGOTHER nat

text \<open>A wait status: \<open>WIFEXITED\<close> with \<open>WEXITSTATUS\<close>, or \<open>WIFSIGNALED\<close> with
  \<open>WTERMSIG\<close> and \<open>WCOREDUMP\<close>.\<close>

datatype wstatus = WExited nat | WSignaled signal bool

text \<open>What \<open>waitpid(pid, &stat_loc, WNOHANG)\<close> returns: 0, \<open>pid\<close> with a status, or -1.\<close>

datatype poll = StillRunning | Reaped wstatus | WaitError

datatype event =
    Prompt "64 word" bool
  | ReadLine "string option"
  | Poll int
  | EndJob int "32 word" string nat
  | BeginJob int "32 word" string
  | JobLine int "32 word" string
  | HistLine "32 word" "string option" bool
  | Stdout string
  | Stderr string
  | Perror string
  | EventNotFound nat
  | Fork
  | Wait int
  | Execvp "string option" "string option list"
  | ExecFailed "string option" string

subsection \<open>\<open>parse_inbuf\<close>\<close>

text \<open>The chain of \<open>strncmp\<close> tests on the untrimmed line.\<close>

definition builtin_of :: "buffer \<Rightarrow> builtin option" where
  "builtin_of inb =
     (if take 4 inb = ''echo'' \<and> isspace (peek inb 4) then Some Builtin_echo
      else if take 4 inb = ''exit'' \<and> isspace (peek inb 4) then Some Builtin_exit
      else if take 4 inb = ''help'' \<and> isspace (peek inb 4) then Some Builtin_help
      else if take 7 inb = ''history'' \<and> isspace (peek inb 7) then Some Builtin_history
      else if take 4 inb = ''jobs'' \<and> isspace (peek inb 4) then Some Builtin_jobs
      else if take 3 inb = ''set'' \<and> isspace (peek inb 3) then Some Builtin_set
      else None)"

text \<open>The loop \<open>for(hp=histlist;hp;hp=hp->next) if(++cnt==hr) break;\<close>: the final \<open>cnt\<close>
  (an \<open>unsigned int\<close>) and the final \<open>hp\<close>.\<close>

fun find_event :: "Input list \<Rightarrow> nat \<Rightarrow> nat \<Rightarrow> nat \<times> Input option" where
  "find_event [] cnt hr = (cnt, None)"
| "find_event (hp # rest) cnt hr =
     (let cnt' = (cnt + 1) mod 2 ^ 32
      in if cnt' = hr then (cnt', Some hp) else find_event rest cnt' hr)"

text \<open>The \<open>do \<dots> while(*++p)\<close> loop that fills \<open>cl\<close> and writes the terminators.\<close>

function tokenize :: "buffer \<Rightarrow> nat \<Rightarrow> nat list \<Rightarrow> buffer \<times> nat list" where
  "tokenize buf p cl =
     (let p1 = p + strspn buf p
      in if peek buf p1 = NUL then (buf, cl)
         else
           let oldp = p1;
               p2 = p1 + strcspn buf p1;
               cl' = cl @ [oldp]
           in if peek buf p2 \<noteq> NUL
              then let buf' = buf[p2 := NUL]
                   in if peek buf' (Suc p2) \<noteq> NUL then tokenize buf' (Suc p2) cl'
                      else (buf', cl')
              else (buf, cl'))"
  by pat_completeness auto
termination
proof (relation "measure (\<lambda>(buf, p, cl). length buf - p)")
  show "wf (measure (\<lambda>(buf, p, cl). length buf - p))"
    by simp
next
  fix buf :: buffer and p :: nat and cl :: "nat list" and x xa xb xc xd
  assume "x = p + strspn buf p" "xb = x + strcspn buf x" "peek buf xb \<noteq> NUL"
    "xd = buf[xb := NUL]"
  then have "xb < length buf" "p \<le> xb"
    by (auto simp: peek_def split: if_splits)
  then show "((xd, Suc xb, xc), (buf, p, cl)) \<in> measure (\<lambda>(buf, p, cl). length buf - p)"
    using \<open>xd = buf[xb := NUL]\<close> by simp
qed

text \<open>\<open>do amp--; while(amp>in&&isspace((int)*amp));\<close> started after the first
  decrement: the argument is \<open>amp - 1\<close>, the result the final \<open>amp\<close>.\<close>

fun trim_back :: "buffer \<Rightarrow> nat \<Rightarrow> nat" where
  "trim_back buf 0 = 0"
| "trim_back buf (Suc a) = (if isspace (peek buf (Suc a)) then trim_back buf a else Suc a)"

datatype parse_result =
    ParseFault
  | ParseNull "event list" buffer
  | ParseOk Input buffer

text \<open>
  Lines 344 to 374: the null sentinel, the copy of \<open>cl\<close> into \<open>cmdvec\<close>, the background
  operator and the trailing trim. \<open>cl[len-1]\<close> with \<open>len = 0\<close> reads before the array:
  \<open>ParseFault\<close>.
\<close>

definition background_op :: "buffer \<Rightarrow> builtin option \<Rightarrow> nat list \<Rightarrow> parse_result" where
  "background_op buf intern cl =
     (let len = length cl
      in if len = 0 then ParseFault
         else
           let p = cl ! (len - 1);
               vec = map Some cl @ [None];
               found = strchr buf p (CHR ''&'');
               bg = (found \<noteq> None);
               vec' = (if found = Some p then vec[len - 1 := None] else vec);
               amp = (case found of Some a \<Rightarrow> a | None \<Rightarrow> p + strlen buf p);
               buf' = (if amp \<noteq> 0 then buf[Suc (trim_back buf (amp - 1)) := NUL] else buf)
           in ParseOk \<lparr>cmdvec = Some (map (map_option (cstr buf')) vec'), internal = intern,
                background = bg, historical = False\<rparr> buf')"

text \<open>The history reference, lines 286 to 323; \<open>exc\<close> is the offset after the \<open>!\<close>.\<close>

definition history_ref :: "Input list \<Rightarrow> buffer \<Rightarrow> nat \<Rightarrow> parse_result" where
  "history_ref histlist inb exc =
     (let p = exc + strcspn inb exc;
          buf = inb[p := NUL];
          hr = strtoul (cstr buf exc)
      in if hr = 0 then ParseNull [Perror ''strtoul''] buf
         else
           case find_event histlist 0 hr of
             (cnt, hp) \<Rightarrow>
               if cnt \<noteq> hr then ParseNull [EventNotFound hr] buf
               else (case hp of
                       None \<Rightarrow> ParseFault
                     | Some h \<Rightarrow> ParseOk (h\<lparr>historical := True\<rparr>) buf))"

definition parse_inbuf :: "Input list \<Rightarrow> buffer \<Rightarrow> parse_result" where
  "parse_inbuf histlist inb =
     (let intern = builtin_of inb
      in if intern \<noteq> None then background_op inb intern [0]
         else
           case strchr inb 0 (CHR ''!'') of
             Some e \<Rightarrow> history_ref histlist inb (Suc e)
           | None \<Rightarrow> (case tokenize inb 0 [] of (buf, cl) \<Rightarrow> background_op buf None cl))"

subsection \<open>The shell's state\<close>

text \<open>
  \<open>struct Job_def\<close>. The job list is kept in an explicit store, since the sweep of
  \<open>main\<close> works on it through three pointers (\<open>joblist\<close>, \<open>jptr\<close>, \<open>jprev\<close>) and
  frees nodes while it walks: an address is an index into \<open>jheap\<close>, a cell is a live
  node or a freed one, \<open>None\<close> is the null pointer. The field \<open>next\<close> is \<open>jnext\<close> here,
  and \<open>cmdbuf\<close> is the text of the line buffer it points to.
\<close>

record Job =
  pid :: int
  cmdbuf :: string
  jnext :: "nat option"

datatype cell = Live Job | Freed

datatype fault = NullDeref | UseAfterFree | DoubleFree | OutOfBounds | HeapOverflow | Diverged

record shell =
  histlist :: "Input list"
  jheap :: "cell list"
  joblist :: "nat option"
  count_commands :: "64 word"
  environ :: "string list"
  out :: "event list"

text \<open>
  What the operating system and the C library answer during one iteration of \<open>main\<close>.
  \<open>w_line\<close> is the result of \<open>fgets\<close>: \<open>None\<close> at the end of the input, else the line
  as read. \<open>w_poll\<close> answers \<open>waitpid(pid, &stat_loc, WNOHANG)\<close>, \<open>w_fork\<close> is the value
  \<open>fork\<close> returns to the process followed, \<open>w_wait\<close> the status of the blocking
  \<open>waitpid\<close>, \<open>w_exec_returns\<close> whether \<open>execvp\<close> comes back, \<open>w_strerror\<close> the text of
  \<open>strerror(errno)\<close>. Two fields stand for what C leaves open: \<open>w_garbage\<close> is the content
  of the \<open>next\<close> field of a \<open>malloc\<close>'ed job node, which the source never initialises, and
  \<open>w_usable\<close> the number of bytes that can be written into the block \<open>malloc(1)\<close> returns
  (1 by the standard, more with most allocators).
\<close>

record world =
  w_uid :: nat
  w_line :: "string option"
  w_poll :: "int \<Rightarrow> poll"
  w_fork :: int
  w_wait :: wstatus
  w_exec_returns :: bool
  w_strerror :: string
  w_garbage :: "nat option"
  w_usable :: nat

datatype halt = EndOfInput | Exited | ChildExited | ChildReplaced | Crashed fault

datatype outcome = Continue shell | Halt halt shell

fun shell_of :: "outcome \<Rightarrow> shell" where
  "shell_of (Continue s) = s"
| "shell_of (Halt r s) = s"

text \<open>How the process ended, if it did.\<close>

fun halt_of :: "outcome \<Rightarrow> halt option" where
  "halt_of (Continue s) = None"
| "halt_of (Halt r s) = Some r"

definition emit :: "event list \<Rightarrow> shell \<Rightarrow> shell" where
  "emit ev s = s\<lparr>out := out s @ ev\<rparr>"

definition newline :: string where
  "newline = [CHR 0x0A]"

text \<open>\<open>shfault\<close>: the message on standard error, after \<open>supersh: \<close> and before a newline.\<close>

definition shfault :: "string \<Rightarrow> event list" where
  "shfault msg = [Stderr (''supersh: '' @ msg @ newline)]"

subsection \<open>\<open>wait_handler\<close>\<close>

definition signame :: "signal \<Rightarrow> string" where
  "signame sg =
     (case sg of
        SIGABRT \<Rightarrow> ''Aborted''
      | SIGFPE \<Rightarrow> ''Floating Point Exception''
      | SIGILL \<Rightarrow> ''Illegal Instruction''
      | SIGINT \<Rightarrow> ''Interrupted''
      | SIGSEGV \<Rightarrow> ''Segmentation Fault''
      | SIGTERM \<Rightarrow> ''Terminated''
      | SIGOTHER n \<Rightarrow> ''Signaled'')"

definition wait_handler :: "wstatus \<Rightarrow> event list" where
  "wait_handler st =
     (case st of
        WExited code \<Rightarrow> []
      | WSignaled sg core \<Rightarrow>
          [Stderr (signame sg)] @ (if core then [Stderr '' (Dumped Core!)''] else [])
            @ [Stdout newline])"

subsection \<open>The job list\<close>

text \<open>\<open>*a\<close> for a node pointer \<open>a\<close>. An access to a freed node is a fault: C leaves it
  undefined.\<close>

definition deref :: "cell list \<Rightarrow> nat \<Rightarrow> fault + Job" where
  "deref h a =
     (if a < length h then (case h ! a of Live j \<Rightarrow> Inr j | Freed \<Rightarrow> Inl UseAfterFree)
      else Inl OutOfBounds)"

text \<open>
  Lines 421 to 436, reached when the polled job exited: the node is unlinked and freed
  when it has a successor; when it has none, the head of the list is freed, \<open>joblist\<close>
  is set to null and the loop is left (the flag).
\<close>

definition unlink_exited ::
  "nat \<Rightarrow> Job \<Rightarrow> nat option \<Rightarrow> cell list \<Rightarrow> nat option
     \<Rightarrow> fault option \<times> bool \<times> cell list \<times> nat option" where
  "unlink_exited a j jprev h jl =
     (case jnext j of
        Some n \<Rightarrow>
          (case jprev of
             Some q \<Rightarrow>
               (case deref h q of
                  Inl f \<Rightarrow> (Some f, False, h, jl)
                | Inr jq \<Rightarrow> (None, False, (h[q := Live (jq\<lparr>jnext := Some n\<rparr>)])[a := Freed], jl))
           | None \<Rightarrow> (None, False, h[a := Freed], Some n))
      | None \<Rightarrow>
          (case jl of
             None \<Rightarrow> (None, True, h, None)
           | Some first \<Rightarrow>
               (case deref h first of
                  Inl f \<Rightarrow> (Some DoubleFree, True, h, jl)
                | Inr jh \<Rightarrow> (None, True, h[first := Freed], None))))"

text \<open>
  The sweep, lines 408 to 442. The arguments are the loop's variables \<open>jptr\<close>, \<open>jprev\<close>,
  \<open>cnt\<close>, the store, \<open>joblist\<close> and the events printed so far. The first argument bounds
  the number of iterations: a walk that has not ended after as many steps as the store
  has cells is in a cycle, and the result is \<open>Diverged\<close>.
\<close>

fun sweep_loop ::
  "nat \<Rightarrow> (int \<Rightarrow> poll) \<Rightarrow> nat option \<Rightarrow> nat option \<Rightarrow> 32 word \<Rightarrow> cell list \<Rightarrow> nat option
     \<Rightarrow> event list \<Rightarrow> fault option \<times> cell list \<times> nat option \<times> event list" where
  "sweep_loop fuel wp None jprev cnt h jl ev = (None, h, jl, ev)"
| "sweep_loop 0 wp (Some a) jprev cnt h jl ev = (Some Diverged, h, jl, ev)"
| "sweep_loop (Suc fuel) wp (Some a) jprev cnt h jl ev =
     (case deref h a of
        Inl f \<Rightarrow> (Some f, h, jl, ev)
      | Inr j \<Rightarrow>
          let cnt' = cnt + 1;
              ev1 = ev @ [Poll (pid j)]
          in case wp (pid j) of
               Reaped st \<Rightarrow>
                 let ev2 = (case st of
                              WExited code \<Rightarrow> ev1 @ [EndJob (pid j) cnt' (cmdbuf j) code]
                            | WSignaled sg core \<Rightarrow> ev1);
                     (f, brk, h1, jl1) = (case st of
                              WExited code \<Rightarrow> unlink_exited a j jprev h jl
                            | WSignaled sg core \<Rightarrow> (None, False, h, jl))
                 in if f \<noteq> None \<or> brk then (f, h1, jl1, ev2)
                    else
                      let ev3 = ev2 @ wait_handler st
                      in (case deref h1 a of
                            Inl f' \<Rightarrow> (Some f', h1, jl1, ev3)
                          | Inr j' \<Rightarrow> sweep_loop fuel wp (jnext j') (Some a) cnt' h1 jl1 ev3)
             | StillRunning \<Rightarrow> sweep_loop fuel wp (jnext j) jprev cnt' h jl ev1
             | WaitError \<Rightarrow> sweep_loop fuel wp (jnext j) jprev cnt' h jl ev1)"

text \<open>The whole \<open>for\<close> loop, entered with \<open>jptr = joblist\<close>, \<open>jprev = NULL\<close> and
  \<open>cnt = 0\<close>: a fault if any, the store, \<open>joblist\<close> and what was printed.\<close>

definition sweep ::
  "(int \<Rightarrow> poll) \<Rightarrow> cell list \<Rightarrow> nat option
     \<Rightarrow> fault option \<times> cell list \<times> nat option \<times> event list" where
  "sweep wp h jl = sweep_loop (length h) wp jl None 0 h jl []"

text \<open>\<open>for(jptr=joblist;jptr&&jptr->next;jptr=jptr->next) cnt++;\<close> of lines 546 and 547:
  the final \<open>jptr\<close> and \<open>cnt\<close>.\<close>

fun job_tail :: "nat \<Rightarrow> cell list \<Rightarrow> nat option \<Rightarrow> 32 word \<Rightarrow> fault + (nat option \<times> 32 word)" where
  "job_tail fuel h None cnt = Inr (None, cnt)"
| "job_tail 0 h (Some a) cnt = Inl Diverged"
| "job_tail (Suc fuel) h (Some a) cnt =
     (case deref h a of
        Inl f \<Rightarrow> Inl f
      | Inr j \<Rightarrow>
          (case jnext j of
             None \<Rightarrow> Inr (Some a, cnt)
           | Some n \<Rightarrow> job_tail fuel h (Some n) (cnt + 1)))"

text \<open>Lines 546 to 565: the new node goes to the end of the list; its \<open>next\<close> field is
  not written.\<close>

definition job_insert :: "world \<Rightarrow> int \<Rightarrow> string \<Rightarrow> shell \<Rightarrow> outcome" where
  "job_insert w p inbuf s =
     (case job_tail (length (jheap s)) (jheap s) (joblist s) 0 of
        Inl f \<Rightarrow> Halt (Crashed f) s
      | Inr (jptr, cnt) \<Rightarrow>
          let fresh = length (jheap s);
              node = Live \<lparr>pid = p, cmdbuf = inbuf, jnext = w_garbage w\<rparr>;
              ev = [BeginJob p (cnt + 1) inbuf]
          in case jptr of
               None \<Rightarrow> Continue (emit ev (s\<lparr>jheap := jheap s @ [node], joblist := Some fresh\<rparr>))
             | Some a \<Rightarrow>
                 (case deref (jheap s) a of
                    Inl f \<Rightarrow> Halt (Crashed f) s
                  | Inr j \<Rightarrow>
                      Continue (emit ev
                        (s\<lparr>jheap := (jheap s)[a := Live (j\<lparr>jnext := Some fresh\<rparr>)] @ [node]\<rparr>))))"

subsection \<open>The history list\<close>

text \<open>
  Lines 452 to 495: a zeroed node is linked at the tail before the line is parsed; when
  the list holds \<open>BUFSIZ\<close> nodes or more its head is freed first. \<open>cnt\<close> is an
  \<open>unsigned int\<close>. With one node and \<open>cnt >= BUFSIZ\<close> the freed head is also the tail
  that is written next.
\<close>

definition hist_alloc :: "nat \<Rightarrow> Input list \<Rightarrow> fault + Input list" where
  "hist_alloc BUFSIZ hl =
     (if hl = [] then Inr [calloc_Input]
      else if BUFSIZ \<le> length hl mod 2 ^ 32
           then (if tl hl = [] then Inl UseAfterFree else Inr (tl hl @ [calloc_Input]))
           else Inr (hl @ [calloc_Input]))"

subsection \<open>The built-in commands\<close>

text \<open>A handler receives a C string; \<open>line\<close> is its text up to the terminator.\<close>

definition builtin_echo :: "string \<Rightarrow> event list" where
  "builtin_echo line =
     (case dropWhile (\<lambda>c. c \<noteq> CHR '' '' \<and> c \<noteq> CHR 0x09) line of
        [] \<Rightarrow> [Stdout newline]
      | c # rest \<Rightarrow> if rest \<noteq> [] then [Stdout (rest @ newline)] else [Stdout newline])"

text \<open>\<open>builtin_exit\<close> reads \<open>line[4]\<close>: the result is whether the shell exits. On a string
  shorter than four characters the read is beyond the terminator.\<close>

definition builtin_exit :: "string \<Rightarrow> fault + bool" where
  "builtin_exit line = (if length line < 4 then Inl OutOfBounds else Inr (length line = 4))"

definition builtin_help :: "event list" where
  "builtin_help =
     [Stdout (newline @ ''supersh by Derek Callaway'' @ newline),
      Stdout (''^^^^^^^^^^^^^^^^^^^^^^^^^'' @ newline),
      Stdout (''echo    - output messages to terminal standard output'' @ newline),
      Stdout (''exit    - terminate shell process'' @ newline),
      Stdout (''help    - print this message'' @ newline),
      Stdout (''history - view previously executed commands'' @ newline),
      Stdout (''jobs    - list background commands'' @ newline),
      Stdout (''set     - assign environment variable values'' @ newline @ newline)]"

text \<open>\<open>builtin_history\<close>: one \<open>printf\<close> per node, which reads \<open>hp->cmdvec[0]\<close>.\<close>

fun builtin_history :: "Input list \<Rightarrow> 32 word \<Rightarrow> fault option \<times> event list" where
  "builtin_history [] cnt = (None, [])"
| "builtin_history (hp # rest) cnt =
     (case cmdvec hp of
        None \<Rightarrow> (Some NullDeref, [])
      | Some v \<Rightarrow>
          (case v of
             [] \<Rightarrow> (Some OutOfBounds, [])
           | name # args \<Rightarrow>
               (case builtin_history rest (cnt + 1) of
                  (f, ev) \<Rightarrow> (f, HistLine (cnt + 1) name (background hp) # ev))))"

fun builtin_jobs :: "nat \<Rightarrow> cell list \<Rightarrow> nat option \<Rightarrow> 32 word \<Rightarrow> fault option \<times> event list" where
  "builtin_jobs fuel h None cnt = (None, [])"
| "builtin_jobs 0 h (Some a) cnt = (Some Diverged, [])"
| "builtin_jobs (Suc fuel) h (Some a) cnt =
     (case deref h a of
        Inl f \<Rightarrow> (Some f, [])
      | Inr j \<Rightarrow>
          (case builtin_jobs fuel h (jnext j) (cnt + 1) of
             (f, ev) \<Rightarrow> (f, JobLine (pid j) (cnt + 1) (cmdbuf j) # ev)))"

text \<open>\<open>putenv\<close> of the C library, for a string that holds an equal sign: the entry of
  the same name is replaced, or the string is added at the end.\<close>

definition env_name :: "string \<Rightarrow> string" where
  "env_name b = takeWhile (\<lambda>c. c \<noteq> CHR ''='') b"

fun putenv :: "string \<Rightarrow> string list \<Rightarrow> string list" where
  "putenv b [] = [b]"
| "putenv b (e # es) = (if env_name e = env_name b then b # es else e # putenv b es)"

text \<open>
  \<open>builtin_set\<close>. The size \<open>strlen(p)+eq_flag?1:2\<close> parses as \<open>(strlen(p)+eq_flag)?1:2\<close>
  and the sum is not null, so the block is \<open>malloc(1)\<close>; \<open>strcpy\<close> and the appended
  \<open>=\<close> write \<open>extent\<close> bytes into it. \<open>usable\<close> is the number of bytes the block can
  take.
\<close>

definition syntax_error_msg :: string where
  "syntax_error_msg = ''syntax error near: '' @ [CHR 0x27, CHR ''='', CHR 0x27]"

definition builtin_set ::
  "nat \<Rightarrow> string \<Rightarrow> string list \<Rightarrow> fault option \<times> string list \<times> event list" where
  "builtin_set usable line env =
     (if length line < 3 then (Some OutOfBounds, env, [])
      else
        let p = dropWhile isspace (drop 3 line)
        in if p = [] then (None, env, map (\<lambda>e. Stdout (e @ newline)) env)
           else
             let eq_flag = (CHR ''='' \<in> set p);
                 ev = (if hd p = CHR ''='' then shfault syntax_error_msg else []);
                 binding = (if eq_flag then p else p @ ''='');
                 extent = length binding + 1
             in if usable < extent then (Some HeapOverflow, env, ev)
                else (None, putenv binding env, ev))"

text \<open>The call \<open>input_data->internal(arg)\<close> in the process that runs it.\<close>

definition run_builtin :: "world \<Rightarrow> builtin \<Rightarrow> string option \<Rightarrow> shell \<Rightarrow> outcome" where
  "run_builtin w b arg s =
     (case b of
        Builtin_echo \<Rightarrow>
          (case arg of
             None \<Rightarrow> Halt (Crashed NullDeref) s
           | Some line \<Rightarrow> Continue (emit (builtin_echo line) s))
      | Builtin_exit \<Rightarrow>
          (case arg of
             None \<Rightarrow> Halt (Crashed NullDeref) s
           | Some line \<Rightarrow>
               (case builtin_exit line of
                  Inl f \<Rightarrow> Halt (Crashed f) s
                | Inr leave \<Rightarrow> if leave then Halt Exited s else Continue s))
      | Builtin_help \<Rightarrow> Continue (emit builtin_help s)
      | Builtin_history \<Rightarrow>
          (case builtin_history (histlist s) 0 of
             (None, ev) \<Rightarrow> Continue (emit ev s)
           | (Some f, ev) \<Rightarrow> Halt (Crashed f) (emit ev s))
      | Builtin_jobs \<Rightarrow>
          (case builtin_jobs (length (jheap s)) (jheap s) (joblist s) 0 of
             (None, ev) \<Rightarrow> Continue (emit ev s)
           | (Some f, ev) \<Rightarrow> Halt (Crashed f) (emit ev s))
      | Builtin_set \<Rightarrow>
          (case arg of
             None \<Rightarrow> Halt (Crashed NullDeref) s
           | Some line \<Rightarrow>
               (case builtin_set (w_usable w) line (environ s) of
                  (None, env, ev) \<Rightarrow> Continue (emit ev (s\<lparr>environ := env\<rparr>))
                | (Some f, env, ev) \<Rightarrow> Halt (Crashed f) (emit ev s))))"

subsection \<open>\<open>main\<close>\<close>

text \<open>Lines 515 to 526: the process for which \<open>fork\<close> returned 0.\<close>

definition child :: "world \<Rightarrow> Input \<Rightarrow> string \<Rightarrow> shell \<Rightarrow> outcome" where
  "child w inp inbuf s =
     (case internal inp of
        Some b \<Rightarrow>
          (case run_builtin w b (Some inbuf) s of
             Continue s' \<Rightarrow> Halt ChildExited s'
           | Halt r s' \<Rightarrow> Halt (if r = Exited then ChildExited else r) s')
      | None \<Rightarrow>
          (case cmdvec inp of
             None \<Rightarrow> Halt (Crashed NullDeref) s
           | Some v \<Rightarrow>
               (case v of
                  [] \<Rightarrow> Halt (Crashed OutOfBounds) s
                | file # args \<Rightarrow>
                    let s1 = emit [Execvp file v] s
                    in if w_exec_returns w
                       then Halt ChildExited (emit [ExecFailed file (w_strerror w)] s1)
                       else Halt ChildReplaced s1)))"

text \<open>Lines 508 to 567: the built-in in the foreground, or \<open>fork\<close> and what follows
  it. \<open>inbuf\<close> is the text of the line buffer after \<open>parse_inbuf\<close>.\<close>

definition dispatch :: "world \<Rightarrow> Input \<Rightarrow> string \<Rightarrow> shell \<Rightarrow> outcome" where
  "dispatch w inp inbuf s =
     (case (if background inp then None else internal inp) of
        Some b \<Rightarrow>
          (if historical inp
           then (case cmdvec inp of
                   None \<Rightarrow> Halt (Crashed NullDeref) s
                 | Some v \<Rightarrow>
                     (case v of
                        [] \<Rightarrow> Halt (Crashed OutOfBounds) s
                      | arg # args \<Rightarrow> run_builtin w b arg s))
           else run_builtin w b (Some inbuf) s)
      | None \<Rightarrow>
          let s1 = emit [Fork] s
          in if w_fork w = 0 then child w inp inbuf s1
             else if w_fork w < 0 then Continue (emit (shfault (w_strerror w)) s1)
             else if \<not> background inp
                  then Continue (emit (Wait (w_fork w) # wait_handler (w_wait w)) s1)
                  else job_insert w (w_fork w) inbuf s1)"

text \<open>Whether \<open>p += strspn(p, \<dots>); if(!*p) continue;\<close> of lines 446 to 448 skips the
  line.\<close>

definition blank :: "buffer \<Rightarrow> bool" where
  "blank inbuf \<longleftrightarrow> peek inbuf (strspn inbuf 0) = NUL"

text \<open>Lines 504 to 506: the fields copied into the node \<open>hptr\<close>, the tail of the list.\<close>

definition record_hist :: "Input \<Rightarrow> Input list \<Rightarrow> Input list" where
  "record_hist inp hl =
     butlast hl @ [(last hl)\<lparr>cmdvec := cmdvec inp, background := background inp,
                              internal := internal inp\<rparr>]"

text \<open>One iteration of the \<open>while(1)\<close> loop of \<open>main\<close>, in the order of the source.\<close>

definition repl_step :: "nat \<Rightarrow> world \<Rightarrow> shell \<Rightarrow> outcome" where
  "repl_step BUFSIZ w s =
     (let s1 = emit [Prompt (count_commands s) (w_uid w = 0)] s
      in case w_line w of
           None \<Rightarrow> Halt EndOfInput (emit [ReadLine None] s1)
         | Some line \<Rightarrow>
             let s2 = emit [ReadLine (Some line)] s1;
                 inbuf = line @ [NUL]
             in case sweep (w_poll w) (jheap s) (joblist s) of
                  (Some f, h, jl, ev) \<Rightarrow>
                    Halt (Crashed f) (emit ev (s2\<lparr>jheap := h, joblist := jl\<rparr>))
                | (None, h, jl, ev) \<Rightarrow>
                    let s3 = emit ev (s2\<lparr>jheap := h, joblist := jl\<rparr>)
                    in
                    if blank inbuf then Continue s3
                    else
                      let s4 = s3\<lparr>count_commands := count_commands s3 + 1\<rparr>
                      in case hist_alloc BUFSIZ (histlist s4) of
                           Inl f \<Rightarrow> Halt (Crashed f) s4
                         | Inr hl \<Rightarrow>
                             let s5 = s4\<lparr>histlist := hl\<rparr>
                             in case parse_inbuf hl inbuf of
                                  ParseFault \<Rightarrow> Halt (Crashed OutOfBounds) s5
                                | ParseNull ev buf \<Rightarrow> Continue (emit ev s5)
                                | ParseOk inp buf \<Rightarrow>
                                    dispatch w inp (cstr buf 0)
                                      (s5\<lparr>histlist := record_hist inp hl\<rparr>))"

text \<open>The loop over the successive answers of the world, until the process ends.\<close>

fun repl_run :: "nat \<Rightarrow> world list \<Rightarrow> shell \<Rightarrow> outcome" where
  "repl_run BUFSIZ [] s = Continue s"
| "repl_run BUFSIZ (w # ws) s =
     (case repl_step BUFSIZ w s of
        Continue s' \<Rightarrow> repl_run BUFSIZ ws s'
      | Halt r s' \<Rightarrow> Halt r s')"

text \<open>The state when \<open>main\<close> enters its loop.\<close>

definition init_shell :: "string list \<Rightarrow> shell" where
  "init_shell env =
     \<lparr>histlist = [], jheap = [], joblist = None, count_commands = 1, environ = env,
      out = [Stdout ('':-) Welcome to supersh. Type help for help.'' @ newline @ newline)]\<rparr>"

subsection \<open>Reference notions\<close>

text \<open>The tokens of a line as the specification describes them: the maximal runs of
  characters that are not white space, in order.\<close>

function tokens :: "string \<Rightarrow> string list" where
  "tokens s =
     (let s1 = dropWhile isspace s
      in if s1 = [] then []
         else takeWhile (\<lambda>c. \<not> isspace c) s1 # tokens (dropWhile (\<lambda>c. \<not> isspace c) s1))"
  by pat_completeness auto
termination
proof (relation "measure length")
  show "wf (measure length)" by simp
next
  fix s :: string and x
  assume x: "x = dropWhile isspace s" and ne: "x \<noteq> []"
  have "\<not> isspace (hd x)"
    using x ne hd_dropWhile by metis
  then have "dropWhile (\<lambda>c. \<not> isspace c) x = dropWhile (\<lambda>c. \<not> isspace c) (tl x)"
    using ne by (cases x) auto
  moreover have "length (dropWhile (\<lambda>c. \<not> isspace c) (tl x)) \<le> length (tl x)"
    by (rule length_dropWhile_le)
  moreover have "length (tl x) < length x"
    using ne by (cases x) auto
  moreover have "length x \<le> length s"
    unfolding x by (rule length_dropWhile_le)
  ultimately show "(dropWhile (\<lambda>c. \<not> isspace c) x, s) \<in> measure length"
    by simp
qed

text \<open>What becomes of the last token: dropped when it starts with \<open>&\<close>, else cut at its
  first \<open>&\<close>.\<close>

definition strip_amp :: "string \<Rightarrow> string option" where
  "strip_amp t =
     (if t \<noteq> [] \<and> hd t = CHR ''&'' then None else Some (takeWhile (\<lambda>c. c \<noteq> CHR ''&'') t))"

text \<open>A string without its trailing white space: what the backward loop of lines 361 to
  364 leaves of the text before the cut.\<close>

definition rstrip :: "string \<Rightarrow> string" where
  "rstrip s = rev (dropWhile isspace (rev s))"

text \<open>How \<open>tokenize\<close> leaves the buffer: the pointers in \<open>cl\<close> are in increasing order,
  each is preceded by white space from the end of the previous token (or from \<open>lo\<close>) and
  is followed by the text of its token and a terminator.\<close>

fun layout :: "buffer \<Rightarrow> nat \<Rightarrow> nat list \<Rightarrow> string list \<Rightarrow> bool" where
  "layout buf lo [] [] = True"
| "layout buf lo (q # qs) (t # ts) =
     (lo \<le> q \<and> (\<forall>i. lo \<le> i \<and> i < q \<longrightarrow> isspace (buf ! i))
      \<and> take (Suc (length t)) (drop q buf) = t @ [NUL]
      \<and> layout buf (Suc (q + length t)) qs ts)"
| "layout buf lo [] (t # ts) = False"
| "layout buf lo (q # qs) [] = False"

text \<open>The pointer \<open>parse_inbuf\<close> returns: the record, or null.\<close>

fun parsed :: "parse_result \<Rightarrow> Input option" where
  "parsed (ParseOk inp buf) = Some inp"
| "parsed (ParseNull ev buf) = None"
| "parsed ParseFault = None"

text \<open>The decimal digits of a number, as \<open>%lu\<close> prints them.\<close>

definition digit_char :: "nat \<Rightarrow> char" where
  "digit_char d = char_of (48 + d)"

function decimal :: "nat \<Rightarrow> string" where
  "decimal n = (if n < 10 then [digit_char n] else decimal (n div 10) @ [digit_char (n mod 10)])"
  by pat_completeness auto
termination
  by (relation "measure id") auto

text \<open>The events of a \<open>waitpid\<close> poll, and a step that polls no job.\<close>

fun is_poll :: "event \<Rightarrow> bool" where
  "is_poll (Poll p) = True"
| "is_poll e = False"

definition quiet :: "shell \<Rightarrow> shell \<Rightarrow> bool" where
  "quiet s s' \<longleftrightarrow> (\<exists>evs. out s' = out s @ evs \<and> (\<forall>e\<in>set evs. \<not> is_poll e))"

subsection \<open>Sample inputs\<close>

text \<open>An iteration's answers for the examples below: an unprivileged user, no job that
  changed state, an allocator with 24 usable bytes.\<close>

definition sample_world :: "string option \<Rightarrow> int \<Rightarrow> world" where
  "sample_world l f =
     \<lparr>w_uid = 1000, w_line = l, w_poll = (\<lambda>p. StillRunning), w_fork = f, w_wait = WExited 0,
      w_exec_returns = False, w_strerror = ''No such file or directory'', w_garbage = None,
      w_usable = 24\<rparr>"

text \<open>Three lines typed at the first three prompts.\<close>

definition three_lines :: "world list" where
  "three_lines =
     [sample_world (Some (''echo one'' @ newline)) 1,
      sample_world (Some (''echo hi'' @ newline)) 1,
      sample_world (Some (''echo three'' @ newline)) 1]"

text \<open>The shell after these three lines, and the history node of an \<open>echo\<close> line.\<close>

definition after_three :: shell where
  "after_three = shell_of (repl_run 8192 three_lines (init_shell []))"

definition echo_entry :: "string \<Rightarrow> Input" where
  "echo_entry l =
     \<lparr>cmdvec = Some [Some l, None], internal = Some Builtin_echo, background = False,
      historical = False\<rparr>"

text \<open>The shell after one background line, and after a second one; a \<open>waitpid\<close> that
  finds the second job exited and the first still running.\<close>

definition one_job :: shell where
  "one_job = shell_of (repl_step 8192 (sample_world (Some (''sleep 9 &'' @ newline)) 7) (init_shell []))"

definition two_jobs :: shell where
  "two_jobs = shell_of (repl_step 8192 (sample_world (Some (''true &'' @ newline)) 8) one_job)"

definition second_exited :: "int \<Rightarrow> poll" where
  "second_exited p = (if p = 8 then Reaped (WExited 0) else StillRunning)"

text \<open>As many lines as the history list holds nodes at \<open>BUFSIZ = 8192\<close>: \<open>echo one\<close>,
  then \<open>echo hi\<close> 8191 times; and the shell after them.\<close>

definition full_lines :: "world list" where
  "full_lines =
     sample_world (Some (''echo one'' @ newline)) 1
       # replicate 8191 (sample_world (Some (''echo hi'' @ newline)) 1)"

definition full_store :: shell where
  "full_store = shell_of (repl_run 8192 full_lines (init_shell []))"

section \<open>Properties\<close>

declare tokenize.simps [simp del]
declare tokens.simps [simp del]
declare decimal.simps [simp del]

text \<open>The definitions that evaluate one iteration on a given line.\<close>

lemmas eval_defs =
  repl_step_def Let_def emit_def sweep_def blank_def hist_alloc_def parse_inbuf_def builtin_of_def
  strchr_def cstr_def history_ref_def strcspn_def strspn_def strtoul_def NUL_def isspace_def
  peek_def strlen_def isdigit_def digits_value_def ULONG_MAX_def background_op_def
  calloc_Input_def dispatch_def run_builtin_def builtin_echo_def builtin_exit_def child_def
  job_insert_def record_hist_def init_shell_def sample_world_def newline_def tokenize.simps
  deref_def unlink_exited_def wait_handler_def shfault_def

subsection \<open>The tokenizer against the tokens of the line\<close>

lemma isspace_NUL [simp]: "\<not> isspace NUL"
  by (simp add: isspace_def NUL_def)

lemma takeWhile_space_NUL:
  "takeWhile isspace (s @ NUL # post) = takeWhile isspace s"
  by (induction s) auto

lemma takeWhile_nonspace_NUL:
  "NUL \<notin> set s \<Longrightarrow>
   takeWhile (\<lambda>c. c \<noteq> NUL \<and> \<not> isspace c) (s @ NUL # post) = takeWhile (\<lambda>c. \<not> isspace c) s"
  by (induction s) auto

lemma strspn_view:
  "drop p buf = s @ NUL # post \<Longrightarrow> strspn buf p = length (takeWhile isspace s)"
  by (simp add: strspn_def takeWhile_space_NUL)

lemma strcspn_view:
  "drop p buf = s @ NUL # post \<Longrightarrow> NUL \<notin> set s \<Longrightarrow>
   strcspn buf p = length (takeWhile (\<lambda>c. \<not> isspace c) s)"
  by (simp add: strcspn_def takeWhile_nonspace_NUL)

lemma view_length: "drop p buf = s @ NUL # post \<Longrightarrow> p + length s < length buf"
proof -
  assume a: "drop p buf = s @ NUL # post"
  have "length (drop p buf) = length buf - p" by simp
  with a have "length buf - p = Suc (length s + length post)" by simp
  then show ?thesis by arith
qed

lemma view_nth:
  "drop p buf = s @ NUL # post \<Longrightarrow> k \<le> length s \<Longrightarrow> peek buf (p + k) = (s @ [NUL]) ! k"
proof -
  assume a: "drop p buf = s @ NUL # post" and k: "k \<le> length s"
  have lt: "p + k < length buf" using view_length [OF a] k by arith
  have "buf ! (p + k) = drop p buf ! k" using lt by simp
  also have "\<dots> = (s @ NUL # post) ! k" by (simp add: a)
  also have "\<dots> = (s @ [NUL]) ! k" using k by (simp add: nth_append)
  finally show ?thesis using lt by (simp add: peek_def)
qed

lemma view_drop:
  "drop p buf = s @ NUL # post \<Longrightarrow> k \<le> length s \<Longrightarrow> drop (p + k) buf = drop k s @ NUL # post"
proof -
  assume a: "drop p buf = s @ NUL # post" and k: "k \<le> length s"
  have "drop (p + k) buf = drop k (drop p buf)" by (simp add: add.commute)
  then show ?thesis using a k by simp
qed

lemma peek_drop: "drop q buf = c # rest \<Longrightarrow> peek buf q = c"
proof -
  assume a: "drop q buf = c # rest"
  then have "q < length buf" by (cases "q < length buf") auto
  moreover from this have "buf ! q = hd (drop q buf)" by (simp add: hd_drop_conv_nth)
  ultimately show ?thesis using a by (simp add: peek_def)
qed

lemma tokens_Nil [simp]: "tokens [] = []"
  by (simp add: tokens.simps)

lemma tokens_space: "isspace c \<Longrightarrow> tokens (c # s) = tokens s"
  by (simp add: tokens.simps [of "c # s"] tokens.simps [of s])

lemma cell_take:
  assumes "take (Suc (p1 + n)) b' = take (Suc (p1 + n)) b"
  shows "take (Suc n) (drop p1 b') = take (Suc n) (drop p1 b)"
proof -
  have "take (Suc n) (drop p1 b') = drop p1 (take (Suc (p1 + n)) b')"
    by (simp add: drop_take)
  also have "\<dots> = drop p1 (take (Suc (p1 + n)) b)" by (simp add: assms)
  also have "\<dots> = take (Suc n) (drop p1 b)" by (simp add: drop_take)
  finally show ?thesis .
qed

lemma take_agree_nth: "take n b' = take n b \<Longrightarrow> i < n \<Longrightarrow> b' ! i = b ! i"
  by (metis nth_take)

lemma take_agree_le: "take n b' = take n b \<Longrightarrow> m \<le> n \<Longrightarrow> take m b' = take m b"
  by (metis min.absorb2 take_take min.commute)

lemma tokenize_layout:
  assumes "drop p buf = s @ NUL # post" and "NUL \<notin> set s"
  shows "\<exists>buf' ptrs. tokenize buf p cl = (buf', cl @ ptrs) \<and> length buf' = length buf
           \<and> take p buf' = take p buf \<and> layout buf' p ptrs (tokens s)"
  using assms
proof (induction "length s" arbitrary: s buf p cl rule: less_induct)
  case less
  define k where "k = length (takeWhile isspace s)"
  define s1 where "s1 = dropWhile isspace s"
  define p1 where "p1 = p + k"
  have view: "drop p buf = s @ NUL # post" and nonul: "NUL \<notin> set s"
    using less.prems by auto
  have k_le: "k \<le> length s" unfolding k_def by (rule length_takeWhile_le)
  have sp: "strspn buf p = k" unfolding k_def by (rule strspn_view [OF view])
  have s1_drop: "s1 = drop k s" unfolding s1_def k_def by (rule dropWhile_eq_drop)
  have dk: "drop p1 buf = s1 @ NUL # post"
    unfolding p1_def s1_drop by (rule view_drop [OF view k_le])
  have len: "p + length s < length buf" by (rule view_length [OF view])
  have gap: "\<forall>i. p \<le> i \<and> i < p1 \<longrightarrow> isspace (buf ! i)"
  proof (intro allI impI)
    fix i assume i: "p \<le> i \<and> i < p1"
    then have j: "i - p < k" unfolding p1_def by arith
    have "buf ! i = drop p buf ! (i - p)" using i len by simp
    also have "\<dots> = s ! (i - p)" using j k_le by (simp add: view nth_append)
    also have "\<dots> = takeWhile isspace s ! (i - p)" using j unfolding k_def by (simp add: takeWhile_nth)
    finally have "buf ! i \<in> set (takeWhile isspace s)" using j unfolding k_def by simp
    then show "isspace (buf ! i)" by (rule set_takeWhileD [THEN conjunct2])
  qed
  show ?case
  proof (cases "s1 = []")
    case True
    then have "peek buf p1 = NUL" using dk by (simp add: peek_drop)
    then have "tokenize buf p cl = (buf, cl)"
      by (simp add: tokenize.simps [of buf p cl] sp p1_def)
    moreover have "tokens s = []" using True by (simp add: tokens.simps [of s] s1_def)
    ultimately show ?thesis by simp
  next
    case False
    define tok where "tok = takeWhile (\<lambda>c. \<not> isspace c) s1"
    define r where "r = dropWhile (\<lambda>c. \<not> isspace c) s1"
    define p2 where "p2 = p1 + length tok"
    have s1_set: "set s1 \<subseteq> set s" unfolding s1_def by (rule set_dropWhileD [THEN subsetI]) 
    then have nonul1: "NUL \<notin> set s1" using nonul by auto
    have hd1: "peek buf p1 = hd s1" using dk False by (cases s1) (auto simp: peek_drop)
    have "hd s1 \<in> set s1" using False by simp
    then have nz1: "peek buf p1 \<noteq> NUL" using hd1 nonul1 by metis
    have cs: "strcspn buf p1 = length tok"
      unfolding tok_def by (rule strcspn_view [OF dk nonul1])
    have tok_le: "length tok \<le> length s1" unfolding tok_def by (rule length_takeWhile_le)
    have r_drop: "r = drop (length tok) s1" unfolding r_def tok_def by (rule dropWhile_eq_drop)
    have s1_split: "s1 = tok @ r" unfolding tok_def r_def by simp
    have d2: "drop p2 buf = r @ NUL # post"
      unfolding p2_def r_drop by (rule view_drop [OF dk tok_le])
    have toks: "tokens s = tok # tokens r"
      using False by (simp add: tokens.simps [of s] s1_def tok_def r_def Let_def)
    have cell: "take (Suc (length tok)) (drop p1 buf) = tok @ [hd (r @ [NUL])]"
      using dk s1_split by (cases r) auto
    have unf: "tokenize buf p cl =
        (if peek buf p2 \<noteq> NUL
         then if peek (buf[p2 := NUL]) (Suc p2) \<noteq> NUL
              then tokenize (buf[p2 := NUL]) (Suc p2) (cl @ [p1])
              else (buf[p2 := NUL], cl @ [p1])
         else (buf, cl @ [p1]))"
      using nz1 [unfolded p1_def] by (simp add: tokenize.simps [of buf p cl] sp cs [unfolded p1_def] p1_def p2_def Let_def)
    show ?thesis
    proof (cases r)
      case Nil
      then have "peek buf p2 = NUL" using d2 by (simp add: peek_drop)
      then have "tokenize buf p cl = (buf, cl @ [p1])" using unf by simp
      moreover have "layout buf p [p1] [tok]"
        using gap cell Nil by (simp add: p1_def)
      ultimately show ?thesis using toks Nil by auto
    next
      case (Cons c r')
      have "\<not> (\<not> isspace (hd r))"
        unfolding r_def using Cons r_def hd_dropWhile [of "\<lambda>c. \<not> isspace c" s1] by auto
      then have spc: "isspace c" using Cons by simp
      have pk2: "peek buf p2 = c" using d2 Cons by (simp add: peek_drop)
      have nz2: "peek buf p2 \<noteq> NUL" using pk2 spc by auto
      define buf1 where "buf1 = buf[p2 := NUL]"
      have p2_lt: "p2 < length buf"
        using view_length [OF d2] by arith
      have d3: "drop (Suc p2) buf1 = r' @ NUL # post"
      proof -
        have "drop (Suc p2) buf1 = drop (Suc p2) buf" unfolding buf1_def by simp
        also have "\<dots> = drop 1 (drop p2 buf)" by simp
        also have "\<dots> = r' @ NUL # post" using d2 Cons by simp
        finally show ?thesis .
      qed
      have tk1: "take p2 buf1 = take p2 buf" unfolding buf1_def by simp
      have cell1: "take (Suc (length tok)) (drop p1 buf1) = tok @ [NUL]"
      proof -
        have "drop p1 buf1 = (drop p1 buf)[length tok := NUL]"
          unfolding buf1_def p2_def by (simp add: drop_update_swap)
        also have "\<dots> = tok @ NUL # r' @ NUL # post"
          using dk s1_split Cons by (simp add: list_update_append)
        finally show ?thesis by simp
      qed
      have gap1: "\<forall>i. p \<le> i \<and> i < p1 \<longrightarrow> isspace (buf1 ! i)"
        using gap unfolding buf1_def p2_def by (auto simp: nth_list_update)
      have toks': "tokens s = tok # tokens r'"
        using toks Cons spc by (simp add: tokens_space)
      show ?thesis
      proof (cases "r' = []")
        case True
        then have "peek buf1 (Suc p2) = NUL" using d3 by (simp add: peek_drop)
        then have "tokenize buf p cl = (buf1, cl @ [p1])"
          using unf nz2 by (simp add: buf1_def)
        moreover have "layout buf1 p [p1] [tok]"
          using gap1 cell1 by (simp add: p1_def)
        moreover have "length buf1 = length buf" "take p buf1 = take p buf"
          unfolding buf1_def p2_def p1_def by simp_all
        ultimately show ?thesis using toks' True by auto
      next
        case False
        then have "peek buf1 (Suc p2) = hd r'" using d3 by (cases r') (auto simp: peek_drop)
        moreover have "hd r' \<in> set s"
          using False s1_set s1_split Cons by (cases r') auto
        ultimately have nz3: "peek buf1 (Suc p2) \<noteq> NUL" using nonul by metis
        have rec: "tokenize buf p cl = tokenize buf1 (Suc p2) (cl @ [p1])"
          using unf nz2 nz3 by (simp add: buf1_def)
        have "length s = k + length s1" unfolding k_def s1_def
          by (metis length_append takeWhile_dropWhile_id)
        then have shorter: "length r' < length s" using s1_split Cons by simp
        have nonul': "NUL \<notin> set r'" using nonul1 s1_split Cons by auto
        obtain buf' ptrs where
          res: "tokenize buf1 (Suc p2) (cl @ [p1]) = (buf', (cl @ [p1]) @ ptrs)"
          and len': "length buf' = length buf1"
          and tk': "take (Suc p2) buf' = take (Suc p2) buf1"
          and lay': "layout buf' (Suc p2) ptrs (tokens r')"
          using less.hyps [OF shorter d3 nonul', of "cl @ [p1]"] by blast
        have ple: "p \<le> p2" "p1 \<le> p2" unfolding p2_def p1_def by simp_all
        have "take p buf' = take p buf1"
          by (rule take_agree_le [OF tk']) (use ple in simp)
        also have "\<dots> = take p buf"
          by (rule take_agree_le [OF tk1]) (use ple in simp)
        finally have tkp: "take p buf' = take p buf" .
        have gap': "\<forall>i. p \<le> i \<and> i < p1 \<longrightarrow> isspace (buf' ! i)"
        proof (intro allI impI)
          fix i assume i: "p \<le> i \<and> i < p1"
          then have "buf' ! i = buf1 ! i"
            using take_agree_nth [OF tk', of i] ple by simp
          then show "isspace (buf' ! i)" using gap1 i by simp
        qed
        have cell': "take (Suc (length tok)) (drop p1 buf') = tok @ [NUL]"
          using cell_take [of p1 "length tok" buf' buf1] tk' cell1 by (simp add: p2_def)
        have "layout buf' p (p1 # ptrs) (tok # tokens r')"
          using gap' cell' lay' by (simp add: p1_def p2_def)
        then show ?thesis
          using rec res len' tkp toks' by (auto simp: buf1_def)
      qed
    qed
  qed
qed

lemma tokens_chars:
  "t \<in> set (tokens s) \<Longrightarrow> t \<noteq> [] \<and> set t \<subseteq> set s \<and> (\<forall>c\<in>set t. \<not> isspace c)"
proof (induction s rule: tokens.induct)
  case (1 s)
  define s1 where "s1 = dropWhile isspace s"
  define tok where "tok = takeWhile (\<lambda>c. \<not> isspace c) s1"
  define r where "r = dropWhile (\<lambda>c. \<not> isspace c) s1"
  have ne: "s1 \<noteq> []"
    using "1.prems" by (auto simp: tokens.simps [of s] s1_def Let_def split: if_splits)
  have toks: "tokens s = tok # tokens r"
    using ne by (simp add: tokens.simps [of s] s1_def tok_def r_def Let_def)
  have sub1: "set s1 \<subseteq> set s" unfolding s1_def by (rule set_dropWhileD [THEN subsetI])
  have "\<not> isspace (hd s1)" using ne hd_dropWhile [of isspace s] by (simp add: s1_def)
  then have tok_ne: "tok \<noteq> []" using ne unfolding tok_def by (cases s1) auto
  have tok_sub: "set tok \<subseteq> set s1" unfolding tok_def by (rule set_takeWhileD [THEN conjunct1, THEN subsetI])
  have tok_ns: "\<forall>c\<in>set tok. \<not> isspace c" unfolding tok_def by (auto dest: set_takeWhileD)
  have r_sub: "set r \<subseteq> set s1" unfolding r_def by (rule set_dropWhileD [THEN subsetI])
  show ?case
  proof (cases "t = tok")
    case True
    then show ?thesis using tok_ne tok_sub sub1 tok_ns by auto
  next
    case False
    then have "t \<in> set (tokens r)" using "1.prems" toks by simp
    then have "t \<in> set (tokens (dropWhile (\<lambda>c. \<not> isspace c) s1))"
      by (simp only: r_def)
    then have "t \<noteq> [] \<and> set t \<subseteq> set (dropWhile (\<lambda>c. \<not> isspace c) s1)
        \<and> (\<forall>c\<in>set t. \<not> isspace c)"
      by (rule "1.IH" [OF s1_def ne])
    moreover have "set (dropWhile (\<lambda>c. \<not> isspace c) s1) \<subseteq> set s"
      using r_sub sub1 unfolding r_def by blast
    ultimately show ?thesis by blast
  qed
qed

lemma cell_view:
  "take (Suc (length t)) (drop q buf) = t @ [NUL] \<Longrightarrow>
   drop q buf = t @ NUL # drop (Suc (q + length t)) buf"
proof -
  assume a: "take (Suc (length t)) (drop q buf) = t @ [NUL]"
  have d: "drop (Suc (length t)) (drop q buf) = drop (Suc (q + length t)) buf"
    by (simp add: add.commute)
  have "take (Suc (length t)) (drop q buf) @ drop (Suc (length t)) (drop q buf) = drop q buf"
    by (rule append_take_drop_id)
  then have "(t @ [NUL]) @ drop (Suc (q + length t)) buf = drop q buf"
    by (simp only: a d)
  then show ?thesis by simp
qed

lemma takeWhile_upto_NUL:
  "NUL \<notin> set t \<Longrightarrow> takeWhile (\<lambda>c. c \<noteq> NUL) (t @ NUL # rest) = t"
  by (induction t) auto

lemma cstr_view: "drop q buf = t @ NUL # rest \<Longrightarrow> NUL \<notin> set t \<Longrightarrow> cstr buf q = t"
  by (simp add: cstr_def takeWhile_upto_NUL)

lemma cell_nth:
  assumes "take (Suc (length t)) (drop q buf) = t @ [NUL]"
  shows "q + length t < length buf \<and> buf ! (q + length t) = NUL"
proof -
  have v: "drop q buf = t @ NUL # drop (Suc (q + length t)) buf"
    by (rule cell_view [OF assms])
  have l: "q + length t < length buf" by (rule view_length [OF v])
  have "peek buf (q + length t) = (t @ [NUL]) ! length t"
    by (rule view_nth [OF v]) simp
  then show ?thesis using l by (simp add: peek_def)
qed

lemma layout_snoc:
  "layout buf lo (qs @ [p]) toks \<Longrightarrow>
   \<exists>ts t lo'. toks = ts @ [t]
     \<and> list_all2 (\<lambda>q u. take (Suc (length u)) (drop q buf) = u @ [NUL] \<and> Suc (q + length u) \<le> lo') qs ts
     \<and> lo \<le> lo' \<and> lo' \<le> p \<and> (\<forall>i. lo' \<le> i \<and> i < p \<longrightarrow> isspace (buf ! i))
     \<and> take (Suc (length t)) (drop p buf) = t @ [NUL]
     \<and> (qs = [] \<longrightarrow> lo' = lo) \<and> (qs \<noteq> [] \<longrightarrow> 0 < lo' \<and> buf ! (lo' - 1) = NUL)"
proof (induction qs arbitrary: lo toks)
  case Nil
  then obtain t where t: "toks = [t]"
    by (cases toks; cases "tl toks") auto
  show ?case
    apply (rule exI [of _ "[]"])
    apply (rule exI [of _ t])
    apply (rule exI [of _ lo])
    using Nil t apply simp
    done
next
  case (Cons q qs)
  then obtain t0 toks' where toks: "toks = t0 # toks'"
    by (cases toks) auto
  have q: "lo \<le> q" and cell: "take (Suc (length t0)) (drop q buf) = t0 @ [NUL]"
    and rest: "layout buf (Suc (q + length t0)) (qs @ [p]) toks'"
    using Cons.prems toks by auto
  obtain ts t lo' where ih: "toks' = ts @ [t]"
      "list_all2 (\<lambda>q u. take (Suc (length u)) (drop q buf) = u @ [NUL] \<and> Suc (q + length u) \<le> lo') qs ts"
      "Suc (q + length t0) \<le> lo'" "lo' \<le> p" "\<forall>i. lo' \<le> i \<and> i < p \<longrightarrow> isspace (buf ! i)"
      "take (Suc (length t)) (drop p buf) = t @ [NUL]"
      "qs = [] \<longrightarrow> lo' = Suc (q + length t0)" "qs \<noteq> [] \<longrightarrow> 0 < lo' \<and> buf ! (lo' - 1) = NUL"
    using Cons.IH [OF rest] by blast
  have nul: "0 < lo' \<and> buf ! (lo' - 1) = NUL"
  proof (cases "qs = []")
    case True
    then have "lo' = Suc (q + length t0)" using ih(7) by simp
    then show ?thesis using cell_nth [OF cell] by simp
  next
    case False
    then show ?thesis using ih(8) by simp
  qed
  have a1: "toks = (t0 # ts) @ [t]" using toks ih(1) by simp
  have a2: "list_all2 (\<lambda>q u. take (Suc (length u)) (drop q buf) = u @ [NUL] \<and> Suc (q + length u) \<le> lo') (q # qs) (t0 # ts)"
    using cell ih(2,3) by simp
  have a3: "lo \<le> lo'" using q ih(3) by arith
  show ?case
    apply (rule exI [of _ "t0 # ts"])
    apply (rule exI [of _ t])
    apply (rule exI [of _ lo'])
    using a1 a2 a3 ih(4,5,6) nul apply simp
    done
qed

lemma trim_back_stop: "\<not> isspace (peek buf a) \<Longrightarrow> trim_back buf a = a"
  by (cases a) auto

lemma trim_back_ge: "\<not> isspace (peek buf j) \<Longrightarrow> j \<le> a \<Longrightarrow> j \<le> trim_back buf a"
proof (induction a)
  case 0
  then show ?case by simp
next
  case (Suc a)
  show ?case
  proof (cases "j = Suc a")
    case True
    then show ?thesis using Suc.prems by simp
  next
    case False
    then have "j \<le> a" using Suc.prems by arith
    then show ?thesis using Suc by auto
  qed
qed

lemma cstr_update_beyond:
  assumes "drop q buf = t @ NUL # rest" and "NUL \<notin> set t" and "q + length t < w"
  shows "cstr (buf[w := x]) q = t"
proof -
  define k where "k = w - q - length t - 1"
  have w: "w - q = length t + Suc k" unfolding k_def using assms(3) by arith
  have "drop q (buf[w := x]) = (drop q buf)[w - q := x]"
    using assms(3) by (simp add: drop_update_swap)
  also have "\<dots> = (t @ NUL # rest)[length t + Suc k := x]"
    by (simp only: assms(1) w)
  also have "\<dots> = t @ NUL # rest[k := x]"
    by (simp add: list_update_append)
  finally show ?thesis using assms(2) by (simp add: cstr_def takeWhile_upto_NUL)
qed

lemma cstr_update_within:
  assumes "drop q buf = t @ NUL # rest" and "NUL \<notin> set t" and "m \<le> length t"
  shows "cstr (buf[q + m := NUL]) q = take m t"
proof -
  have "drop q (buf[q + m := NUL]) = (drop q buf)[m := NUL]"
    by (simp add: drop_update_swap)
  also have "\<dots> = take m t @ NUL # drop (Suc m) (t @ NUL # rest)"
    using assms(1,3) by (simp add: upd_conv_take_nth_drop)
  finally have "drop q (buf[q + m := NUL]) = take m t @ NUL # drop (Suc m) (t @ NUL # rest)" .
  moreover have "NUL \<notin> set (take m t)" using assms(2) by (auto dest: in_set_takeD)
  ultimately show ?thesis by (rule cstr_view)
qed

lemma strchr_view:
  assumes "drop p buf = t @ NUL # rest" and "NUL \<notin> set t"
  shows "strchr buf p c =
           (if c \<in> set t then Some (p + length (takeWhile (\<lambda>d. d \<noteq> c) t)) else None)"
  by (simp add: strchr_def cstr_view [OF assms] Let_def)

lemma strlen_view:
  assumes "drop p buf = t @ NUL # rest" and "NUL \<notin> set t"
  shows "strlen buf p = length t"
  by (simp add: strlen_def cstr_view [OF assms])

lemma takeWhile_all: "c \<notin> set t \<Longrightarrow> takeWhile (\<lambda>d. d \<noteq> c) t = t"
  by (induction t) auto

lemma takeWhile_empty_hd: "t \<noteq> [] \<Longrightarrow> takeWhile (\<lambda>d. d \<noteq> c) t = [] \<longleftrightarrow> hd t = c"
  by (cases t) auto

lemma background_op_layout:
  assumes lay: "layout buf 0 (qs @ [p]) toks"
    and good: "\<forall>t\<in>set toks. t \<noteq> [] \<and> NUL \<notin> set t \<and> (\<forall>c\<in>set t. \<not> isspace c)"
  shows "\<exists>buf'. background_op buf intern (qs @ [p]) =
           ParseOk \<lparr>cmdvec = Some (map Some (butlast toks) @ [strip_amp (last toks), None]),
                    internal = intern, background = (CHR ''&'' \<in> set (last toks)),
                    historical = False\<rparr> buf'"
proof -
  obtain ts t lo' where toks: "toks = ts @ [t]"
    and all2: "list_all2 (\<lambda>q u. take (Suc (length u)) (drop q buf) = u @ [NUL] \<and> Suc (q + length u) \<le> lo') qs ts"
    and lo'p: "lo' \<le> p"
    and cell: "take (Suc (length t)) (drop p buf) = t @ [NUL]"
    and nul: "qs \<noteq> [] \<longrightarrow> 0 < lo' \<and> buf ! (lo' - 1) = NUL"
    using layout_snoc [OF lay] by blast
  have tg: "t \<noteq> []" "NUL \<notin> set t" "\<forall>c\<in>set t. \<not> isspace c"
    using good toks by auto
  have tsg: "\<forall>u\<in>set ts. NUL \<notin> set u" using good toks by auto
  define rest where "rest = drop (Suc (p + length t)) buf"
  have view: "drop p buf = t @ NUL # rest"
    unfolding rest_def by (rule cell_view [OF cell])
  have plen: "p + length t < length buf" by (rule view_length [OF view])
  define m where "m = length (takeWhile (\<lambda>d. d \<noteq> CHR ''&'') t)"
  have m_le: "m \<le> length t" unfolding m_def by (rule length_takeWhile_le)
  define found where "found = strchr buf p (CHR ''&'')"
  have found: "found = (if CHR ''&'' \<in> set t then Some (p + m) else None)"
    unfolding found_def m_def by (rule strchr_view [OF view tg(2)])
  define amp where "amp = (case found of Some a \<Rightarrow> a | None \<Rightarrow> p + strlen buf p)"
  have amp: "amp = p + m"
  proof (cases "CHR ''&'' \<in> set t")
    case True
    then show ?thesis by (simp add: amp_def found)
  next
    case False
    then have "m = length t" unfolding m_def by (simp add: takeWhile_all)
    then show ?thesis using False by (simp add: amp_def found strlen_view [OF view tg(2)])
  qed
  define buf' where "buf' = (if amp \<noteq> 0 then buf[Suc (trim_back buf (amp - 1)) := NUL] else buf)"
  define vec where "vec = map Some (qs @ [p]) @ [None]"
  define vec' where "vec' = (if found = Some p then vec[length qs := None] else vec)"
  have bo: "background_op buf intern (qs @ [p]) =
      ParseOk \<lparr>cmdvec = Some (map (map_option (cstr buf')) vec'), internal = intern,
               background = (found \<noteq> None), historical = False\<rparr> buf'"
    unfolding found_def amp_def buf'_def vec_def vec'_def
    by (simp add: background_op_def Let_def nth_append del: map_append list.map)
  have m0: "m = 0 \<longleftrightarrow> hd t = CHR ''&''"
    unfolding m_def using takeWhile_empty_hd [OF tg(1), of "CHR ''&''"] by simp
  have fp: "found = Some p \<longleftrightarrow> hd t = CHR ''&''"
  proof
    assume "found = Some p"
    then have "m = 0" using found by (auto split: if_splits)
    then show "hd t = CHR ''&''" using m0 by simp
  next
    assume h: "hd t = CHR ''&''"
    then have "CHR ''&'' \<in> set t" using tg(1) by (cases t) auto
    moreover have "m = 0" using h m0 by simp
    ultimately show "found = Some p" using found by simp
  qed
  have F1: "map (cstr buf') qs = ts"
  proof (cases "qs = []")
    case True
    then show ?thesis using all2 by simp
  next
    case False
    then have lo: "0 < lo'" "buf ! (lo' - 1) = NUL" using nul by auto
    have "lo' - 1 < length buf" using lo lo'p plen by arith
    then have "peek buf (lo' - 1) = NUL" using lo by (simp add: peek_def)
    then have ns: "\<not> isspace (peek buf (lo' - 1))" by simp
    have amp_pos: "amp \<noteq> 0" using lo lo'p amp by arith
    have "lo' - 1 \<le> amp - 1" using lo'p amp by arith
    then have "lo' - 1 \<le> trim_back buf (amp - 1)" by (rule trim_back_ge [OF ns])
    then have w: "lo' \<le> Suc (trim_back buf (amp - 1))" by arith
    have b': "buf' = buf[Suc (trim_back buf (amp - 1)) := NUL]"
      using amp_pos by (simp add: buf'_def)
    have one: "cstr buf' q = u"
      if "take (Suc (length u)) (drop q buf) = u @ [NUL]" "Suc (q + length u) \<le> lo'" "NUL \<notin> set u"
      for q u
    proof -
      have v: "drop q buf = u @ NUL # drop (Suc (q + length u)) buf"
        by (rule cell_view [OF that(1)])
      have lt: "q + length u < Suc (trim_back buf (amp - 1))" using that(2) w by arith
      show ?thesis unfolding b' by (rule cstr_update_beyond [OF v that(3) lt])
    qed
    have "list_all2 (\<lambda>q u. cstr buf' q = u) qs ts"
      using all2 tsg
    proof (induction qs ts rule: list_all2_induct)
      case Nil
      then show ?case by simp
    next
      case (Cons q qs u ts)
      then show ?case using one [of u q] by simp
    qed
    then show ?thesis
      by (induction qs ts rule: list_all2_induct) auto
  qed
  have F2: "cstr buf' p = takeWhile (\<lambda>d. d \<noteq> CHR ''&'') t" if mpos: "m \<noteq> 0"
  proof -
    have idx: "amp - 1 = p + (m - 1)" using amp mpos by arith
    have "peek buf (p + (m - 1)) = (t @ [NUL]) ! (m - 1)"
      by (rule view_nth [OF view]) (use m_le in arith)
    also have "\<dots> = t ! (m - 1)"
    proof -
      have "m - 1 < length t" using m_le mpos by arith
      then show ?thesis by (simp add: nth_append)
    qed
    finally have "peek buf (amp - 1) = t ! (m - 1)" using idx by simp
    moreover have "m - 1 < length t" using m_le mpos by arith
    ultimately have "peek buf (amp - 1) \<in> set t" by simp
    then have "\<not> isspace (peek buf (amp - 1))" using tg(3) by blast
    then have "trim_back buf (amp - 1) = amp - 1" by (rule trim_back_stop)
    then have "buf' = buf[p + m := NUL]" using amp mpos by (simp add: buf'_def)
    then have "cstr buf' p = take m t"
      using cstr_update_within [OF view tg(2) m_le] by simp
    moreover have "take m t = takeWhile (\<lambda>d. d \<noteq> CHR ''&'') t"
      unfolding m_def by (rule takeWhile_eq_take [symmetric])
    ultimately show ?thesis by simp
  qed
  have vec_eq: "map (map_option (cstr buf')) vec' = map Some ts @ [strip_amp t, None]"
  proof (cases "hd t = CHR ''&''")
    case True
    then have "vec' = map Some qs @ [None, None]"
      using fp by (simp add: vec'_def vec_def list_update_append)
    then have "map (map_option (cstr buf')) vec' = map Some (map (cstr buf') qs) @ [None, None]"
      by simp
    then show ?thesis using True tg(1) F1 by (simp add: strip_amp_def)
  next
    case False
    then have "vec' = map Some qs @ [Some p, None]"
      using fp by (simp add: vec'_def vec_def)
    then have "map (map_option (cstr buf')) vec'
        = map Some (map (cstr buf') qs) @ [Some (cstr buf' p), None]"
      by simp
    moreover have "m \<noteq> 0" using False m0 by simp
    ultimately show ?thesis using False F1 F2 by (simp add: strip_amp_def)
  qed
  have bg: "(found \<noteq> None) = (CHR ''&'' \<in> set t)" using found by simp
  show ?thesis
    using bo vec_eq bg toks by simp
qed

subsection \<open>\<open>parse_inbuf\<close> on a tokenized line\<close>

lemma tokens_nonempty_ptrs: "layout buf lo ptrs toks \<Longrightarrow> toks \<noteq> [] \<Longrightarrow> ptrs \<noteq> []"
  by (cases ptrs; cases toks) auto

lemma parse_inbuf_tokens:
  assumes nonul: "NUL \<notin> set line" and nb: "builtin_of (line @ [NUL]) = None"
    and noexc: "CHR ''!'' \<notin> set line" and ne: "tokens line \<noteq> []"
  shows "\<exists>buf. parse_inbuf hl (line @ [NUL]) =
           ParseOk \<lparr>cmdvec = Some (map Some (butlast (tokens line))
                                      @ [strip_amp (last (tokens line)), None]),
                    internal = None, background = (CHR ''&'' \<in> set (last (tokens line))),
                    historical = False\<rparr> buf"
proof -
  have view: "drop 0 (line @ [NUL]) = line @ NUL # []" by simp
  have "strchr (line @ [NUL]) 0 (CHR ''!'') = None"
    using strchr_view [OF view nonul, of "CHR ''!''"] noexc by simp
  moreover obtain buf' ptrs where tk: "tokenize (line @ [NUL]) 0 [] = (buf', [] @ ptrs)"
    and lay: "layout buf' 0 ptrs (tokens line)"
    using tokenize_layout [OF view nonul, of "[]"] by blast
  ultimately have pi: "parse_inbuf hl (line @ [NUL]) = background_op buf' None ptrs"
    using nb by (simp add: parse_inbuf_def)
  have "ptrs \<noteq> []" by (rule tokens_nonempty_ptrs [OF lay ne])
  then have snoc: "ptrs = butlast ptrs @ [last ptrs]" by simp
  have good: "\<forall>t\<in>set (tokens line). t \<noteq> [] \<and> NUL \<notin> set t \<and> (\<forall>c\<in>set t. \<not> isspace c)"
    using tokens_chars [of _ line] nonul by blast
  have lay': "layout buf' 0 (butlast ptrs @ [last ptrs]) (tokens line)"
    using lay snoc by simp
  show ?thesis
    using background_op_layout [OF lay' good, of None] pi snoc by simp
qed

lemma blank_tokens:
  assumes "NUL \<notin> set line"
  shows "blank (line @ [NUL]) \<longleftrightarrow> tokens line = []"
proof -
  define s1 where "s1 = dropWhile isspace line"
  have view: "drop 0 (line @ [NUL]) = line @ NUL # []" by simp
  have sp: "strspn (line @ [NUL]) 0 = length (takeWhile isspace line)"
    by (rule strspn_view [OF view])
  have "drop (0 + length (takeWhile isspace line)) (line @ [NUL]) =
      drop (length (takeWhile isspace line)) line @ NUL # []"
    by (rule view_drop [OF view]) (rule length_takeWhile_le)
  then have d: "drop (length (takeWhile isspace line)) (line @ [NUL]) = s1 @ [NUL]"
    by (simp add: s1_def dropWhile_eq_drop)
  have "set s1 \<subseteq> set line" unfolding s1_def by (rule set_dropWhileD [THEN subsetI])
  then have nn: "NUL \<notin> set s1" using assms by auto
  have "peek (line @ [NUL]) (length (takeWhile isspace line)) = hd (s1 @ [NUL])"
    using d by (cases s1) (auto simp: peek_drop)
  then have "blank (line @ [NUL]) \<longleftrightarrow> s1 = []"
    using nn by (cases s1) (auto simp: blank_def sp)
  moreover have "tokens line = [] \<longleftrightarrow> s1 = []"
    by (simp add: tokens.simps [of line] s1_def Let_def)
  ultimately show ?thesis by simp
qed

lemma tokens_cover:
  "c \<in> set s \<Longrightarrow> \<not> isspace c \<Longrightarrow> \<exists>t\<in>set (tokens s). c \<in> set t"
proof (induction s rule: tokens.induct)
  case (1 s)
  define s1 where "s1 = dropWhile isspace s"
  define tok where "tok = takeWhile (\<lambda>c. \<not> isspace c) s1"
  define r where "r = dropWhile (\<lambda>c. \<not> isspace c) s1"
  have "s = takeWhile isspace s @ s1" by (simp add: s1_def)
  then have "c \<in> set (takeWhile isspace s) \<or> c \<in> set s1"
    using "1.prems"(1) by (metis Un_iff set_append)
  moreover have "c \<notin> set (takeWhile isspace s)"
    using "1.prems"(2) by (auto dest: set_takeWhileD)
  ultimately have c1: "c \<in> set s1" by simp
  then have ne: "s1 \<noteq> []" by auto
  have toks: "tokens s = tok # tokens r"
    using ne by (simp add: tokens.simps [of s] s1_def tok_def r_def Let_def)
  have "s1 = tok @ r" by (simp add: tok_def r_def)
  then have "c \<in> set tok \<or> c \<in> set r" using c1 by (metis Un_iff set_append)
  then show ?case
  proof
    assume "c \<in> set tok"
    then show ?thesis using toks by simp
  next
    assume "c \<in> set r"
    then have "c \<in> set (dropWhile (\<lambda>c. \<not> isspace c) s1)" by (simp only: r_def)
    then have "\<exists>t\<in>set (tokens (dropWhile (\<lambda>c. \<not> isspace c) s1)). c \<in> set t"
      using "1.IH" [OF s1_def ne] "1.prems"(2) by blast
    then show ?thesis using toks by (simp add: r_def)
  qed
qed

lemma builtin_of_first:
  "builtin_of b \<noteq> None \<Longrightarrow>
   b \<noteq> [] \<and> (hd b = CHR ''e'' \<or> hd b = CHR ''h'' \<or> hd b = CHR ''j'' \<or> hd b = CHR ''s'')"
  by (cases b) (auto simp: builtin_of_def split: if_splits)

lemma hist_alloc_ok:
  assumes "1 < BUFSIZ"
  shows "hist_alloc BUFSIZ hl =
     Inr ((if hl \<noteq> [] \<and> BUFSIZ \<le> length hl mod 2 ^ 32 then tl hl else hl) @ [calloc_Input])"
proof (cases hl)
  case Nil
  then show ?thesis by (simp add: hist_alloc_def)
next
  case (Cons a rest)
  show ?thesis
  proof (cases rest)
    case Nil
    then have "length hl mod 2 ^ 32 = 1" using Cons by simp
    then show ?thesis using assms Cons by (simp add: hist_alloc_def)
  next
    case (Cons b rest')
    then show ?thesis using \<open>hl = a # rest\<close> by (simp add: hist_alloc_def)
  qed
qed

lemma repl_step_parsed:
  assumes "w_line w = Some line"
    and "sweep (w_poll w) (jheap s) (joblist s) = (None, h, jl, ev)"
    and "\<not> blank (line @ [NUL])"
    and "hist_alloc BUFSIZ (histlist s) = Inr hl"
    and "parse_inbuf hl (line @ [NUL]) = ParseOk inp buf"
  shows "repl_step BUFSIZ w s =
           dispatch w inp (cstr buf 0)
             (s\<lparr>jheap := h, joblist := jl,
                out := out s @ [Prompt (count_commands s) (w_uid w = 0), ReadLine (Some line)] @ ev,
                count_commands := count_commands s + 1,
                histlist := record_hist inp hl\<rparr>)"
  using assms by (simp add: repl_step_def Let_def emit_def)

lemma repl_step_parse_null:
  assumes "w_line w = Some line"
    and "sweep (w_poll w) (jheap s) (joblist s) = (None, h, jl, ev)"
    and "\<not> blank (line @ [NUL])"
    and "hist_alloc BUFSIZ (histlist s) = Inr hl"
    and "parse_inbuf hl (line @ [NUL]) = ParseNull pev buf"
  shows "repl_step BUFSIZ w s =
           Continue
             (s\<lparr>jheap := h, joblist := jl,
                out := out s @ [Prompt (count_commands s) (w_uid w = 0), ReadLine (Some line)] @ ev @ pev,
                count_commands := count_commands s + 1,
                histlist := hl\<rparr>)"
  using assms by (simp add: repl_step_def Let_def emit_def)

lemma repl_step_blank:
  assumes "w_line w = Some line"
    and "sweep (w_poll w) (jheap s) (joblist s) = (None, h, jl, ev)"
    and "blank (line @ [NUL])"
  shows "repl_step BUFSIZ w s =
           Continue
             (s\<lparr>jheap := h, joblist := jl,
                out := out s @ [Prompt (count_commands s) (w_uid w = 0), ReadLine (Some line)] @ ev\<rparr>)"
  using assms by (simp add: repl_step_def Let_def emit_def)

lemma lone_amp:
  assumes nonul: "NUL \<notin> set line" and toks: "tokens line = [''&'']"
  shows "\<exists>buf. parse_inbuf hl (line @ [NUL]) =
           ParseOk \<lparr>cmdvec = Some [None, None], internal = None, background = True,
                    historical = False\<rparr> buf"
proof -
  have only: "c = CHR ''&''" if "c \<in> set line" "\<not> isspace c" for c
    using tokens_cover [OF that] toks by simp
  have ne: "line \<noteq> []" using toks by auto
  then have "hd (line @ [NUL]) \<in> set line" by (cases line) auto
  then have "isspace (hd (line @ [NUL])) \<or> hd (line @ [NUL]) = CHR ''&''"
    using only by blast
  then have first: "isspace (hd (line @ [NUL])) \<or> hd (line @ [NUL]) = CHR ''&''" .
  have nb: "builtin_of (line @ [NUL]) = None"
  proof (rule ccontr)
    assume "builtin_of (line @ [NUL]) \<noteq> None"
    then have "hd (line @ [NUL]) = CHR ''e'' \<or> hd (line @ [NUL]) = CHR ''h''
        \<or> hd (line @ [NUL]) = CHR ''j'' \<or> hd (line @ [NUL]) = CHR ''s''"
      by (rule builtin_of_first [THEN conjunct2])
    then show False using first by (auto simp: isspace_def)
  qed
  have "\<not> isspace (CHR ''!'')" by (simp add: isspace_def)
  then have noexc: "CHR ''!'' \<notin> set line" using only by fastforce
  have "tokens line \<noteq> []" using toks by simp
  from parse_inbuf_tokens [OF nonul nb noexc this, of hl]
  show ?thesis by (simp add: toks strip_amp_def)
qed

lemma strip_amp_only: "strip_amp ''&'' = None"
  by (simp add: strip_amp_def)

lemma takeWhile_until: "c \<notin> set t \<Longrightarrow> takeWhile (\<lambda>d. d \<noteq> c) (t @ c # r) = t"
  by (induction t) auto

lemma strip_amp_word:
  "word \<noteq> [] \<Longrightarrow> CHR ''&'' \<notin> set word \<Longrightarrow> strip_amp (word @ ''&'') = Some word"
  by (cases word) (auto simp: strip_amp_def takeWhile_until)

text \<open>A built-in line: the whole line is the one argument, cut at its first \<open>&\<close> and
  at the white space before it.\<close>

lemma find_event_mem: "find_event hl cnt hr = (c, Some h) \<Longrightarrow> h \<in> set hl"
  by (induction hl arbitrary: cnt) (auto simp: Let_def split: if_splits)

lemma rstrip_snoc_space: "isspace x \<Longrightarrow> rstrip (xs @ [x]) = rstrip xs"
  by (simp add: rstrip_def)

lemma rstrip_snoc_plain: "\<not> isspace x \<Longrightarrow> rstrip (xs @ [x]) = xs @ [x]"
  by (simp add: rstrip_def)

lemma rstrip_prefix: "take (length (rstrip xs)) xs = rstrip xs"
proof -
  have "rev (takeWhile isspace (rev xs) @ dropWhile isspace (rev xs)) = rev (rev xs)"
    by (simp only: takeWhile_dropWhile_id)
  then have "rstrip xs @ rev (takeWhile isspace (rev xs)) = xs"
    by (simp only: rev_append rev_rev_ident rstrip_def)
  then have "take (length (rstrip xs)) xs
      = take (length (rstrip xs)) (rstrip xs @ rev (takeWhile isspace (rev xs)))"
    by simp
  then show ?thesis by simp
qed

lemma rstrip_length: "length (rstrip xs) \<le> length xs"
  unfolding rstrip_def by (simp add: length_dropWhile_le [of isspace "rev xs", simplified])

lemma trim_back_rstrip:
  "xs \<noteq> [] \<Longrightarrow> \<not> isspace (hd xs) \<Longrightarrow>
   Suc (trim_back (xs @ rest) (length xs - 1)) = length (rstrip xs)"
proof (induction xs arbitrary: rest rule: rev_induct)
  case Nil
  then show ?case by simp
next
  case (snoc x ys)
  show ?case
  proof (cases "ys = []")
    case True
    then show ?thesis using snoc.prems by (simp add: rstrip_def)
  next
    case False
    then obtain n where n: "length ys = Suc n" by (cases ys) auto
    have hd: "\<not> isspace (hd ys)" using snoc.prems False by simp
    have pk: "peek ((ys @ [x]) @ rest) (Suc n) = x"
      using n by (simp add: peek_def nth_append)
    show ?thesis
    proof (cases "isspace x")
      case True
      have "Suc (trim_back (ys @ (x # rest)) (length ys - 1)) = length (rstrip ys)"
        by (rule snoc.IH [OF False hd])
      then show ?thesis
        using True pk n by (simp add: rstrip_snoc_space)
    next
      case False
      then show ?thesis using pk n by (simp add: rstrip_snoc_plain)
    qed
  qed
qed

lemma parse_inbuf_builtin:
  assumes nonul: "NUL \<notin> set line" and b: "builtin_of (line @ [NUL]) = Some b"
  shows "\<exists>buf. parse_inbuf hl (line @ [NUL]) =
           ParseOk \<lparr>cmdvec = Some [Some (rstrip (takeWhile (\<lambda>c. c \<noteq> CHR ''&'') line)), None],
                    internal = Some b, background = (CHR ''&'' \<in> set line),
                    historical = False\<rparr> buf"
proof -
  define inb where "inb = line @ [NUL]"
  define pre where "pre = takeWhile (\<lambda>c. c \<noteq> CHR ''&'') line"
  define m where "m = length pre"
  have view: "drop 0 inb = line @ NUL # []" by (simp add: inb_def)
  have first: "inb \<noteq> [] \<and> (hd inb = CHR ''e'' \<or> hd inb = CHR ''h'' \<or> hd inb = CHR ''j''
      \<or> hd inb = CHR ''s'')"
    using b builtin_of_first [of inb] by (simp add: inb_def)
  have ne: "line \<noteq> []"
    using first by (cases line) (auto simp: inb_def NUL_def)
  then have hdl: "hd line = hd inb" by (cases line) (auto simp: inb_def)
  have plain: "\<not> isspace (hd line)" "hd line \<noteq> CHR ''&''"
    using first hdl by (auto simp: isspace_def)
  have pre_ne: "pre \<noteq> []"
    using ne plain(2) by (cases line) (auto simp: pre_def)
  have hd_pre: "hd pre = hd line"
    using ne plain(2) by (cases line) (auto simp: pre_def)
  have m_pos: "0 < m" using pre_ne by (simp add: m_def)
  have m_le: "m \<le> length line" unfolding m_def pre_def by (rule length_takeWhile_le)
  have found: "strchr inb 0 (CHR ''&'') = (if CHR ''&'' \<in> set line then Some m else None)"
    using strchr_view [OF view nonul, of "CHR ''&''"] by (simp add: m_def pre_def)
  have sl: "strlen inb 0 = length line" by (rule strlen_view [OF view nonul])
  have m_all: "CHR ''&'' \<notin> set line \<Longrightarrow> m = length line"
    by (simp add: m_def pre_def takeWhile_all)
  have split: "inb = pre @ (drop m line @ [NUL])"
    unfolding inb_def pre_def m_def
    by (simp add: dropWhile_eq_drop [symmetric])
  have "Suc (trim_back (pre @ (drop m line @ [NUL])) (length pre - 1)) = length (rstrip pre)"
    by (rule trim_back_rstrip [OF pre_ne]) (simp add: hd_pre plain)
  then have tb: "Suc (trim_back inb (m - 1)) = length (rstrip pre)"
    using split by (simp add: m_def)
  have L: "length (rstrip pre) \<le> length line"
    using rstrip_length [of pre] m_le by (simp add: m_def)
  have "cstr (inb[0 + length (rstrip pre) := NUL]) 0 = take (length (rstrip pre)) line"
    by (rule cstr_update_within [OF view nonul L])
  moreover have "take (length (rstrip pre)) line = take (length (rstrip pre)) pre"
  proof -
    have "pre = take m line" unfolding pre_def m_def by (rule takeWhile_eq_take)
    then have "take (length (rstrip pre)) pre = take (length (rstrip pre)) (take m line)"
      by simp
    also have "\<dots> = take (length (rstrip pre)) line"
      using rstrip_length [of pre] by (simp add: m_def min_def)
    finally show ?thesis by simp
  qed
  ultimately have cs: "cstr (inb[length (rstrip pre) := NUL]) 0 = rstrip pre"
    by (simp add: rstrip_prefix)
  have bo: "background_op inb (Some b) [0] =
      ParseOk \<lparr>cmdvec = Some [Some (rstrip pre), None], internal = Some b,
               background = (CHR ''&'' \<in> set line), historical = False\<rparr>
        (inb[length (rstrip pre) := NUL])"
  proof (cases "CHR ''&'' \<in> set line")
    case True
    then show ?thesis
      using m_pos tb cs by (simp add: background_op_def Let_def found)
  next
    case False
    then show ?thesis
      using m_pos tb cs m_all ne by (simp add: background_op_def Let_def found sl)
  qed
  have "parse_inbuf hl inb = background_op inb (Some b) [0]"
    using b by (simp add: parse_inbuf_def inb_def)
  then show ?thesis using bo unfolding inb_def pre_def by auto
qed


lemma history_ref_entry:
  "history_ref hl inb exc = ParseOk inp buf \<Longrightarrow> \<exists>e\<in>set hl. inp = e\<lparr>historical := True\<rparr>"
  by (auto simp: history_ref_def Let_def split: if_splits prod.splits option.splits
      dest: find_event_mem)

lemma parse_inbuf_reference:
  assumes nonul: "NUL \<notin> set line" and nb: "builtin_of (line @ [NUL]) = None"
    and exc: "CHR ''!'' \<in> set line" and p: "parsed (parse_inbuf hl (line @ [NUL])) = Some inp"
  shows "\<exists>e\<in>set hl. inp = e\<lparr>historical := True\<rparr>"
proof -
  have view: "drop 0 (line @ [NUL]) = line @ NUL # []" by simp
  obtain e0 where "strchr (line @ [NUL]) 0 (CHR ''!'') = Some e0"
    using strchr_view [OF view nonul, of "CHR ''!''"] exc by simp
  then have eq: "parse_inbuf hl (line @ [NUL]) = history_ref hl (line @ [NUL]) (Suc e0)"
    using nb by (simp add: parse_inbuf_def)
  obtain buf where "parse_inbuf hl (line @ [NUL]) = ParseOk inp buf"
    using p by (cases "parse_inbuf hl (line @ [NUL])") auto
  then show ?thesis using eq history_ref_entry by metis
qed

lemma tokens_ex1: "tokens (''ls -l &'' @ newline) = [''ls'', ''-l'', ''&'']"
  by (simp add: tokens.simps isspace_def newline_def)

lemma tokens_ex2: "tokens (''sleep 5&'' @ newline) = [''sleep'', ''5&'']"
  by (simp add: tokens.simps isspace_def newline_def)

text \<open>
  C5 (amended). \<open>parse_inbuf\<close> treats a line in one of three ways.
  A line that is tokenized (no built-in prefix, no \<open>!\<close>) and has at least one token: the
  background flag is set if and only if the last token contains \<open>&\<close>; the arguments are
  the tokens, except the last, which is replaced by the null pointer when it starts with
  \<open>&\<close> (so a last token that is exactly \<open>&\<close> is removed) and is cut at its first \<open>&\<close>
  otherwise (so \<open>word&\<close> becomes \<open>word\<close>).
  A built-in line (\<open>echo\<close>, \<open>exit\<close>, \<open>help\<close>, \<open>history\<close>, \<open>jobs\<close>, \<open>set\<close>): the flag is
  set if and only if the line contains \<open>&\<close> anywhere; the argument vector holds one
  string, the line up to its first \<open>&\<close> without the white space before it (so
  \<open>echo hi &\<close> gives \<open>echo hi\<close>).
  A history reference (a \<open>!\<close> in a line that is not a built-in): a record that is
  returned is a node of the history list, with its stored flag, whatever \<open>&\<close> the line
  contains.
\<close>

theorem parsed_line_background:
  assumes "NUL \<notin> set line"
  shows "(builtin_of (line @ [NUL]) = None \<and> CHR ''!'' \<notin> set line \<and> tokens line \<noteq> [] \<longrightarrow>
            parsed (parse_inbuf hl (line @ [NUL])) =
              Some \<lparr>cmdvec = Some (map Some (butlast (tokens line))
                                      @ [strip_amp (last (tokens line)), None]),
                    internal = None, background = (CHR ''&'' \<in> set (last (tokens line))),
                    historical = False\<rparr>)
         \<and> (last (tokens line) = ''&'' \<longrightarrow> strip_amp (last (tokens line)) = None)
         \<and> (\<forall>word. word \<noteq> [] \<and> CHR ''&'' \<notin> set word \<and> last (tokens line) = word @ ''&''
                \<longrightarrow> strip_amp (last (tokens line)) = Some word)
         \<and> (\<forall>b. builtin_of (line @ [NUL]) = Some b \<longrightarrow>
              parsed (parse_inbuf hl (line @ [NUL])) =
                Some \<lparr>cmdvec = Some [Some (rstrip (takeWhile (\<lambda>c. c \<noteq> CHR ''&'') line)), None],
                      internal = Some b, background = (CHR ''&'' \<in> set line),
                      historical = False\<rparr>)
         \<and> (builtin_of (line @ [NUL]) = None \<and> CHR ''!'' \<in> set line \<longrightarrow>
              (\<forall>inp. parsed (parse_inbuf hl (line @ [NUL])) = Some inp \<longrightarrow>
                 (\<exists>e\<in>set hl. inp = e\<lparr>historical := True\<rparr>)))"
proof -
  have 1: "parsed (parse_inbuf hl (line @ [NUL])) =
              Some \<lparr>cmdvec = Some (map Some (butlast (tokens line))
                                      @ [strip_amp (last (tokens line)), None]),
                    internal = None, background = (CHR ''&'' \<in> set (last (tokens line))),
                    historical = False\<rparr>"
    if "builtin_of (line @ [NUL]) = None" "CHR ''!'' \<notin> set line" "tokens line \<noteq> []"
  proof -
    note prem = that
    obtain buf where "parse_inbuf hl (line @ [NUL]) =
           ParseOk \<lparr>cmdvec = Some (map Some (butlast (tokens line))
                                      @ [strip_amp (last (tokens line)), None]),
                    internal = None, background = (CHR ''&'' \<in> set (last (tokens line))),
                    historical = False\<rparr> buf"
      using parse_inbuf_tokens [OF assms prem] by blast
    then show ?thesis by simp
  qed
  have 2: "parsed (parse_inbuf hl (line @ [NUL])) =
                Some \<lparr>cmdvec = Some [Some (rstrip (takeWhile (\<lambda>c. c \<noteq> CHR ''&'') line)), None],
                      internal = Some b, background = (CHR ''&'' \<in> set line),
                      historical = False\<rparr>"
    if "builtin_of (line @ [NUL]) = Some b" for b
  proof -
    note prem = that
    obtain buf where "parse_inbuf hl (line @ [NUL]) =
           ParseOk \<lparr>cmdvec = Some [Some (rstrip (takeWhile (\<lambda>c. c \<noteq> CHR ''&'') line)), None],
                    internal = Some b, background = (CHR ''&'' \<in> set line),
                    historical = False\<rparr> buf"
      using parse_inbuf_builtin [OF assms prem] by blast
    then show ?thesis by simp
  qed
  have 3: "\<exists>e\<in>set hl. inp = e\<lparr>historical := True\<rparr>"
    if "builtin_of (line @ [NUL]) = None" "CHR ''!'' \<in> set line"
      "parsed (parse_inbuf hl (line @ [NUL])) = Some inp" for inp
    by (rule parse_inbuf_reference [OF assms that])
  show ?thesis
    using 1 2 3 strip_amp_only strip_amp_word by (intro conjI allI impI) auto
qed

text \<open>C5, four instances. The lines \<open>ls -l &\<close>, \<open>sleep 5&\<close>, \<open>echo hi &\<close>, and
  \<open>!1 &\<close> on a list of one foreground node.\<close>

theorem parsed_line_background_witness:
  "parsed (parse_inbuf [] ((''ls -l &'' @ newline) @ [NUL])) =
     Some \<lparr>cmdvec = Some [Some ''ls'', Some ''-l'', None, None], internal = None,
           background = True, historical = False\<rparr>
   \<and> parsed (parse_inbuf [] ((''sleep 5&'' @ newline) @ [NUL])) =
     Some \<lparr>cmdvec = Some [Some ''sleep'', Some ''5'', None], internal = None,
           background = True, historical = False\<rparr>
   \<and> parsed (parse_inbuf [] ((''echo hi &'' @ newline) @ [NUL])) =
     Some \<lparr>cmdvec = Some [Some ''echo hi'', None], internal = Some Builtin_echo,
           background = True, historical = False\<rparr>
   \<and> parsed (parse_inbuf [echo_entry ''echo one''] ((''!1 &'' @ newline) @ [NUL])) =
     Some ((echo_entry ''echo one'')\<lparr>historical := True\<rparr>)"
proof -
  have a: "NUL \<notin> set (''ls -l &'' @ newline)" "NUL \<notin> set (''sleep 5&'' @ newline)"
    "NUL \<notin> set (''echo hi &'' @ newline)" "NUL \<notin> set (''!1 &'' @ newline)"
    by (simp_all add: NUL_def newline_def)
  have b: "builtin_of ((''ls -l &'' @ newline) @ [NUL]) = None"
    "builtin_of ((''sleep 5&'' @ newline) @ [NUL]) = None"
    "builtin_of ((''echo hi &'' @ newline) @ [NUL]) = Some Builtin_echo"
    "builtin_of ((''!1 &'' @ newline) @ [NUL]) = None"
    by (simp_all add: builtin_of_def newline_def peek_def isspace_def)
  have c: "CHR ''!'' \<notin> set (''ls -l &'' @ newline)" "CHR ''!'' \<notin> set (''sleep 5&'' @ newline)"
    "CHR ''!'' \<in> set (''!1 &'' @ newline)"
    by (simp_all add: newline_def)
  have d: "tokens (''ls -l &'' @ newline) \<noteq> []" "tokens (''sleep 5&'' @ newline) \<noteq> []"
    using tokens_ex1 tokens_ex2 by simp_all
  have r: "rstrip (takeWhile (\<lambda>c. c \<noteq> CHR ''&'') (''echo hi &'' @ newline)) = ''echo hi''"
    by (simp add: rstrip_def newline_def isspace_def)
  have h: "parsed (parse_inbuf [echo_entry ''echo one''] ((''!1 &'' @ newline) @ [NUL])) =
     Some ((echo_entry ''echo one'')\<lparr>historical := True\<rparr>)"
    by (simp add: eval_defs)
  note t1 = parsed_line_background [OF a(1), of "[]", THEN conjunct1, rule_format, OF conjI [OF b(1) conjI [OF c(1) d(1)]]]
  note t2 = parsed_line_background [OF a(2), of "[]", THEN conjunct1, rule_format, OF conjI [OF b(2) conjI [OF c(2) d(2)]]]
  note t3 = parsed_line_background [OF a(3), of "[]", THEN conjunct2, THEN conjunct2,
      THEN conjunct2, THEN conjunct1, rule_format, OF b(3)]
  note t4 = parsed_line_background [OF a(4), of "[echo_entry ''echo one'']", THEN conjunct2,
      THEN conjunct2, THEN conjunct2, THEN conjunct2, rule_format, OF conjI [OF b(4) c(3)] h]
  show ?thesis
    using t1 t2 t3 t4 h r
    by (simp add: tokens_ex1 [simplified] tokens_ex2 [simplified] strip_amp_def)
qed

text \<open>C5 as stated fails on the line \<open>a&b\<close>: its last token neither is \<open>&\<close> nor ends
  with \<open>&\<close>, and the background flag is set (the argument is cut to \<open>a\<close>). It fails on
  the built-in line \<open>echo a & b\<close> as well: the last token is \<open>b\<close>, the flag is set and
  the argument is \<open>echo a\<close>.\<close>

theorem background_iff_trailing_amp_counterexample:
  "tokens (''a&b'' @ newline) = [''a&b'']
   \<and> ''a&b'' \<noteq> ''&'' \<and> last ''a&b'' \<noteq> CHR ''&''
   \<and> parsed (parse_inbuf [] ((''a&b'' @ newline) @ [NUL])) =
       Some \<lparr>cmdvec = Some [Some ''a'', None], internal = None, background = True,
             historical = False\<rparr>
   \<and> tokens (''echo a & b'' @ newline) = [''echo'', ''a'', ''&'', ''b'']
   \<and> ''b'' \<noteq> ''&'' \<and> last ''b'' \<noteq> CHR ''&''
   \<and> parsed (parse_inbuf [] ((''echo a & b'' @ newline) @ [NUL])) =
       Some \<lparr>cmdvec = Some [Some ''echo a'', None], internal = Some Builtin_echo,
             background = True, historical = False\<rparr>"
  by (simp add: tokens.simps isspace_def newline_def parse_inbuf_def builtin_of_def strchr_def
      cstr_def NUL_def tokenize.simps strspn_def strcspn_def peek_def background_op_def strlen_def)

lemma job_insert_keeps_out:
  "x \<in> set (out s) \<Longrightarrow> x \<in> set (out (shell_of (job_insert w p i s)))"
  by (auto simp: job_insert_def emit_def Let_def split: sum.splits option.splits prod.splits)

text \<open>
  C10. For a line whose only token is \<open>&\<close>, \<open>parse_inbuf\<close> returns a record with the
  background flag set and an argument vector whose first element is null; \<open>main\<close> forks
  for it all the same, and the child calls \<open>execvp\<close> with that null pointer as the
  program name.
\<close>

theorem lone_ampersand_reaches_exec:
  assumes "NUL \<notin> set line" and "tokens line = [''&'']" and "w_line w = Some line"
    and "sweep (w_poll w) (jheap s) (joblist s) = (None, h, jl, ev)" and "1 < BUFSIZ"
  shows "(\<forall>hl. parsed (parse_inbuf hl (line @ [NUL])) =
            Some \<lparr>cmdvec = Some [None, None], internal = None, background = True,
                  historical = False\<rparr>)
         \<and> Fork \<in> set (out (shell_of (repl_step BUFSIZ w s)))
         \<and> (w_fork w = 0 \<longrightarrow>
              (\<exists>s'. repl_step BUFSIZ w s
                      = Halt (if w_exec_returns w then ChildExited else ChildReplaced) s')
              \<and> out (shell_of (repl_step BUFSIZ w s)) =
                  out s @ [Prompt (count_commands s) (w_uid w = 0), ReadLine (Some line)] @ ev
                    @ [Fork, Execvp None [None, None]]
                    @ (if w_exec_returns w then [ExecFailed None (w_strerror w)] else []))"
proof -
  define inp where "inp = \<lparr>cmdvec = Some [None, None], internal = None, background = True,
                  historical = False\<rparr>"
  have p: "\<exists>buf. parse_inbuf hl (line @ [NUL]) = ParseOk inp buf" for hl
    unfolding inp_def by (rule lone_amp [OF assms(1,2)])
  define hl where "hl = (if histlist s \<noteq> [] \<and> BUFSIZ \<le> length (histlist s) mod 2 ^ 32
                          then tl (histlist s) else histlist s) @ [calloc_Input]"
  have ha: "hist_alloc BUFSIZ (histlist s) = Inr hl"
    unfolding hl_def by (rule hist_alloc_ok [OF assms(5)])
  obtain buf where pb: "parse_inbuf hl (line @ [NUL]) = ParseOk inp buf"
    using p by blast
  have nb: "\<not> blank (line @ [NUL])"
    using blank_tokens [OF assms(1)] assms(2) by simp
  note step = repl_step_parsed [OF assms(3,4) nb ha pb]
  have 1: "\<forall>hl. parsed (parse_inbuf hl (line @ [NUL])) = Some inp"
  proof
    fix hl' obtain b where "parse_inbuf hl' (line @ [NUL]) = ParseOk inp b" using p by blast
    then show "parsed (parse_inbuf hl' (line @ [NUL])) = Some inp" by simp
  qed
  have 2: "Fork \<in> set (out (shell_of (repl_step BUFSIZ w s)))"
    unfolding step
    by (auto simp: dispatch_def inp_def child_def emit_def Let_def intro!: job_insert_keeps_out)
  have 3: "w_fork w = 0 \<longrightarrow>
              (\<exists>s'. repl_step BUFSIZ w s
                      = Halt (if w_exec_returns w then ChildExited else ChildReplaced) s')
              \<and> out (shell_of (repl_step BUFSIZ w s)) =
                  out s @ [Prompt (count_commands s) (w_uid w = 0), ReadLine (Some line)] @ ev
                    @ [Fork, Execvp None [None, None]]
                    @ (if w_exec_returns w then [ExecFailed None (w_strerror w)] else [])"
    unfolding step
    by (simp add: dispatch_def inp_def child_def emit_def Let_def)
  show ?thesis using 1 2 3 unfolding inp_def by blast
qed

text \<open>C10, an instance. The line \<open>&\<close> at the first prompt, followed into the child.\<close>

theorem lone_ampersand_reaches_exec_witness:
  "repl_step 8192 (sample_world (Some (''&'' @ newline)) 0) (init_shell []) =
     Halt ChildReplaced
       \<lparr>histlist = [\<lparr>cmdvec = Some [None, None], internal = None, background = True,
                     historical = False\<rparr>],
        jheap = [], joblist = None, count_commands = 2, environ = [],
        out = [Stdout ('':-) Welcome to supersh. Type help for help.'' @ newline @ newline),
               Prompt 1 False, ReadLine (Some (''&'' @ newline)), Fork,
               Execvp None [None, None]]\<rparr>
   \<and> out (shell_of (repl_step 8192 (sample_world (Some (''&'' @ newline)) 0) (init_shell [])))
       = out (init_shell []) @ [Prompt 1 False, ReadLine (Some (''&'' @ newline))] @ []
           @ [Fork, Execvp None [None, None]] @ []"
proof -
  have a: "NUL \<notin> set (''&'' @ newline)" by (simp add: NUL_def newline_def)
  have b: "tokens (''&'' @ newline) = [''&'']"
    by (simp add: tokens.simps isspace_def newline_def)
  have c: "w_line (sample_world (Some (''&'' @ newline)) 0) = Some (''&'' @ newline)"
    by (simp add: sample_world_def)
  have d: "sweep (w_poll (sample_world (Some (''&'' @ newline)) 0)) (jheap (init_shell []))
      (joblist (init_shell [])) = (None, [], None, [])"
    by (simp add: sweep_def init_shell_def)
  have e: "(1::nat) < 8192" by simp
  have "repl_step 8192 (sample_world (Some (''&'' @ newline)) 0) (init_shell []) =
     Halt ChildReplaced
       \<lparr>histlist = [\<lparr>cmdvec = Some [None, None], internal = None, background = True,
                     historical = False\<rparr>],
        jheap = [], joblist = None, count_commands = 2, environ = [],
        out = [Stdout ('':-) Welcome to supersh. Type help for help.'' @ newline @ newline),
               Prompt 1 False, ReadLine (Some (''&'' @ newline)), Fork,
               Execvp None [None, None]]\<rparr>"
    by (simp add: eval_defs)
  then show ?thesis
    using lone_ampersand_reaches_exec [OF a b c d e]
    by (simp add: sample_world_def init_shell_def)
qed

subsection \<open>The history list and the command counter across \<open>main\<close>\<close>

lemma run_builtin_keeps:
  "histlist (shell_of (run_builtin w b arg s)) = histlist s
   \<and> count_commands (shell_of (run_builtin w b arg s)) = count_commands s"
  by (auto simp: run_builtin_def emit_def split: builtin.splits option.splits sum.splits prod.splits)

lemma child_keeps:
  "histlist (shell_of (child w inp i s)) = histlist s
   \<and> count_commands (shell_of (child w inp i s)) = count_commands s"
proof (cases "internal inp")
  case None
  then show ?thesis
    by (auto simp: child_def emit_def Let_def split: option.splits list.splits)
next
  case (Some b)
  then show ?thesis
    using run_builtin_keeps [of w b "Some i" s]
    by (cases "run_builtin w b (Some i) s") (auto simp: child_def)
qed

lemma job_insert_keeps:
  "histlist (shell_of (job_insert w p i s)) = histlist s
   \<and> count_commands (shell_of (job_insert w p i s)) = count_commands s"
  by (auto simp: job_insert_def emit_def Let_def split: sum.splits option.splits prod.splits)

lemma dispatch_keeps:
  "histlist (shell_of (dispatch w inp i s)) = histlist s
   \<and> count_commands (shell_of (dispatch w inp i s)) = count_commands s"
  using run_builtin_keeps child_keeps [of w inp i "emit [Fork] s"]
    job_insert_keeps [of w "w_fork w" i "emit [Fork] s"]
  by (auto simp: dispatch_def emit_def Let_def split: option.splits list.splits)

lemma repl_step_histlist:
  "histlist (shell_of (repl_step BUFSIZ w s)) =
     (case w_line w of
        None \<Rightarrow> histlist s
      | Some line \<Rightarrow>
          if fst (sweep (w_poll w) (jheap s) (joblist s)) \<noteq> None \<or> blank (line @ [NUL])
          then histlist s
          else (case hist_alloc BUFSIZ (histlist s) of
                  Inl f \<Rightarrow> histlist s
                | Inr hl \<Rightarrow>
                    (case parsed (parse_inbuf hl (line @ [NUL])) of
                       None \<Rightarrow> hl
                     | Some inp \<Rightarrow> record_hist inp hl)))"
  by (auto simp: repl_step_def Let_def emit_def dispatch_keeps
      split: option.splits prod.splits sum.splits parse_result.splits)

lemma repl_step_count:
  "count_commands (shell_of (repl_step BUFSIZ w s)) =
     (if (\<exists>line. w_line w = Some line \<and> \<not> blank (line @ [NUL]))
         \<and> fst (sweep (w_poll w) (jheap s) (joblist s)) = None
      then count_commands s + 1 else count_commands s)"
  by (auto simp: repl_step_def Let_def emit_def dispatch_keeps
      split: option.splits prod.splits sum.splits parse_result.splits)

lemma find_event_hit:
  "cnt < n \<Longrightarrow> n \<le> cnt + length hl \<Longrightarrow> cnt + length hl < 2 ^ 32 \<Longrightarrow>
   find_event hl cnt n = (n, Some (hl ! (n - cnt - 1)))"
proof (induction hl arbitrary: cnt)
  case Nil
  then show ?case by simp
next
  case (Cons h rest)
  have m: "(cnt + 1) mod 2 ^ 32 = cnt + 1" using Cons.prems(3) by simp
  show ?case
  proof (cases "cnt + 1 = n")
    case True
    then show ?thesis using m by (simp add: Let_def)
  next
    case False
    then have lt: "cnt + 1 < n" using Cons.prems(1) by arith
    have "find_event rest (cnt + 1) n = (n, Some (rest ! (n - (cnt + 1) - 1)))"
      by (rule Cons.IH [OF lt]) (use Cons.prems in simp_all)
    moreover have "(h # rest) ! (n - cnt - 1) = rest ! (n - (cnt + 1) - 1)"
    proof -
      have "n - cnt - 1 = Suc (n - (cnt + 1) - 1)" using lt by arith
      then show ?thesis by simp
    qed
    ultimately show ?thesis using m False by (simp add: Let_def)
  qed
qed

lemma digit_char_props:
  assumes "d < 10"
  shows "isdigit (digit_char d)" and "of_char (digit_char d) = 48 + d"
  using assms by (simp_all add: isdigit_def digit_char_def)

lemma decimal_digits: "\<forall>c\<in>set (decimal n). isdigit c"
proof (induction n rule: decimal.induct)
  case (1 n)
  show ?case
  proof (cases "n < 10")
    case True
    then show ?thesis by (simp add: decimal.simps [of n] digit_char_props)
  next
    case False
    then show ?thesis using "1.IH" by (simp add: decimal.simps [of n] digit_char_props)
  qed
qed

lemma decimal_nonempty: "decimal n \<noteq> []"
  by (simp add: decimal.simps [of n])

lemma digits_value_snoc:
  "digits_value (ds @ [c]) = 10 * digits_value ds + (of_char c - 48)"
  by (simp add: digits_value_def)

lemma digits_value_decimal: "digits_value (decimal n) = n"
proof (induction n rule: decimal.induct)
  case (1 n)
  show ?case
  proof (cases "n < 10")
    case True
    then show ?thesis
      by (simp add: decimal.simps [of n] digits_value_def digit_char_props)
  next
    case False
    then have "digits_value (decimal (n div 10)) = n div 10" using "1.IH" by simp
    then show ?thesis
      using False by (simp add: decimal.simps [of n] digits_value_snoc digit_char_props)
  qed
qed

lemma isdigit_plain:
  "isdigit c \<Longrightarrow> \<not> isspace c \<and> c \<noteq> NUL \<and> c \<noteq> CHR ''-'' \<and> c \<noteq> CHR ''+''"
  by (auto simp: isdigit_def isspace_def NUL_def)

lemma takeWhile_all_P: "\<forall>c\<in>set xs. P c \<Longrightarrow> takeWhile P xs = xs"
  by (induction xs) auto

lemma strtoul_decimal:
  assumes "n \<le> ULONG_MAX"
  shows "strtoul (decimal n) = n"
proof -
  obtain c cs where d: "decimal n = c # cs" using decimal_nonempty [of n] by (cases "decimal n") auto
  have dig: "\<forall>c\<in>set (decimal n). isdigit c" by (rule decimal_digits)
  then have c: "isdigit c" using d by simp
  have 1: "dropWhile isspace (decimal n) = decimal n"
    using isdigit_plain [OF c] d by simp
  have 2: "takeWhile isdigit (decimal n) = decimal n"
    using dig by (rule takeWhile_all_P)
  have 3: "hd (decimal n) \<noteq> CHR ''-''" "hd (decimal n) \<noteq> CHR ''+''"
    using isdigit_plain [OF c] d by simp_all
  have "strtoul (decimal n) =
      (if ULONG_MAX < digits_value (decimal n) then ULONG_MAX else digits_value (decimal n))"
    by (simp add: strtoul_def 1 2 3 Let_def)
  then show ?thesis using assms by (simp add: digits_value_decimal)
qed

lemma takeWhile_append_stop:
  "\<forall>x\<in>set xs. P x \<Longrightarrow> ys = [] \<or> \<not> P (hd ys) \<Longrightarrow> takeWhile P (xs @ ys) = xs"
proof (induction xs)
  case Nil
  then show ?case by (cases ys) auto
next
  case (Cons x xs)
  then show ?case by simp
qed

lemma parse_history_line:
  assumes n1: "1 \<le> N" and n2: "N \<le> length hl" and small: "length hl < 2 ^ 32"
    and rest: "rest = [] \<or> isspace (hd rest)"
  shows "\<exists>buf. parse_inbuf hl (CHR ''!'' # decimal N @ rest @ [NUL]) =
           ParseOk ((hl ! (N - 1))\<lparr>historical := True\<rparr>) buf"
proof -
  define inb where "inb = CHR ''!'' # decimal N @ rest @ [NUL]"
  define d where "d = decimal N"
  have dig: "\<forall>c\<in>set d. isdigit c" unfolding d_def by (rule decimal_digits)
  then have plain: "\<forall>c\<in>set d. c \<noteq> NUL \<and> \<not> isspace c" using isdigit_plain by blast
  have nb: "builtin_of inb = None" by (simp add: builtin_of_def inb_def)
  have ex: "strchr inb 0 (CHR ''!'') = Some 0"
    by (simp add: strchr_def cstr_def inb_def NUL_def Let_def)
  have d1: "drop (Suc 0) inb = d @ rest @ [NUL]" by (simp add: inb_def d_def)
  have stop: "rest @ [NUL] = [] \<or> \<not> (hd (rest @ [NUL]) \<noteq> NUL \<and> \<not> isspace (hd (rest @ [NUL])))"
    using rest by (cases rest) auto
  have "takeWhile (\<lambda>c. c \<noteq> NUL \<and> \<not> isspace c) (d @ (rest @ [NUL])) = d"
    using plain stop by (rule takeWhile_append_stop)
  then have cs: "strcspn inb (Suc 0) = length d" by (simp add: strcspn_def d1)
  define buf where "buf = inb[Suc (length d) := NUL]"
  have "drop (Suc 0) buf = (drop (Suc 0) inb)[length d := NUL]"
    unfolding buf_def by (simp add: drop_update_swap)
  also have "\<dots> = d @ (rest @ [NUL])[0 := NUL]" by (simp add: d1 list_update_append)
  also have "\<dots> = d @ NUL # tl (rest @ [NUL])" by (cases rest) auto
  finally have "cstr buf (Suc 0) = d" using plain by (intro cstr_view) auto
  moreover have "N \<le> ULONG_MAX" using n2 small by (simp add: ULONG_MAX_def)
  ultimately have hr: "strtoul (cstr buf (Suc 0)) = N"
    by (simp add: d_def strtoul_decimal)
  have fe: "find_event hl 0 N = (N, Some (hl ! (N - 0 - 1)))"
    by (rule find_event_hit) (use n1 n2 small in simp_all)
  have "history_ref hl inb (Suc 0) = ParseOk ((hl ! (N - 1))\<lparr>historical := True\<rparr>) buf"
    using n1 by (simp add: history_ref_def cs hr [unfolded buf_def] fe Let_def buf_def)
  then have "parse_inbuf hl inb = ParseOk ((hl ! (N - 1))\<lparr>historical := True\<rparr>) buf"
    by (simp add: parse_inbuf_def nb ex)
  then show ?thesis unfolding inb_def by blast
qed

lemma builtin_history_listing:
  "length (snd (builtin_history hl cnt)) \<le> length hl
   \<and> (\<forall>i<length (snd (builtin_history hl cnt)).
         snd (builtin_history hl cnt) ! i
           = HistLine (cnt + of_nat (Suc i)) (hd (the (cmdvec (hl ! i)))) (background (hl ! i)))
   \<and> ((\<forall>e\<in>set hl. \<exists>name args. cmdvec e = Some (name # args)) \<longrightarrow>
         fst (builtin_history hl cnt) = None
         \<and> length (snd (builtin_history hl cnt)) = length hl)"
proof (induction hl arbitrary: cnt)
  case Nil
  then show ?case by simp
next
  case (Cons e es)
  show ?case
  proof (cases "cmdvec e")
    case None
    then show ?thesis by simp
  next
    case (Some v)
    show ?thesis
    proof (cases v)
      case Nil
      then show ?thesis using Some by simp
    next
      case (Cons name args)
      obtain f ev where r: "builtin_history es (cnt + 1) = (f, ev)"
        by (cases "builtin_history es (cnt + 1)")
      have ih: "length ev \<le> length es"
        "\<forall>i<length ev. ev ! i
           = HistLine (cnt + 1 + of_nat (Suc i)) (hd (the (cmdvec (es ! i)))) (background (es ! i))"
        "(\<forall>e\<in>set es. \<exists>name args. cmdvec e = Some (name # args)) \<longrightarrow>
           f = None \<and> length ev = length es"
        using Cons.IH [of "cnt + 1"] r by simp_all
      have res: "builtin_history (e # es) cnt = (f, HistLine (cnt + 1) name (background e) # ev)"
        using Some Cons r by simp
      have nth: "(HistLine (cnt + 1) name (background e) # ev) ! i
           = HistLine (cnt + of_nat (Suc i)) (hd (the (cmdvec ((e # es) ! i))))
               (background ((e # es) ! i))" if "i < Suc (length ev)" for i
      proof (cases i)
        case 0
        then show ?thesis using Some Cons by simp
      next
        case (Suc j)
        then have "j < length ev" using that by simp
        then show ?thesis using ih(2) Suc by (simp add: add.assoc)
      qed
      show ?thesis
        unfolding res using ih(1,3) nth by simp
    qed
  qed
qed

lemma hist_alloc_length:
  assumes "0 < BUFSIZ" and "BUFSIZ < 2 ^ 31" and "length hl0 \<le> BUFSIZ"
    and "hist_alloc BUFSIZ hl0 = Inr hl"
  shows "length hl \<le> BUFSIZ
    \<and> hl = (if length hl0 = BUFSIZ then tl hl0 else hl0) @ [calloc_Input]"
proof -
  have "length hl0 < 2 ^ 32" using assms(2,3) by simp
  then have m: "length hl0 mod 2 ^ 32 = length hl0" by simp
  show ?thesis
  proof (cases "hl0 = []")
    case True
    then show ?thesis using assms by (auto simp: hist_alloc_def)
  next
    case False
    then have "length (tl hl0) = length hl0 - 1" by simp
    then show ?thesis
      using assms False m by (auto simp: hist_alloc_def split: if_splits)
  qed
qed

lemma record_hist_shape:
  "hl = xs @ [e] \<Longrightarrow>
   record_hist inp hl
     = xs @ [e\<lparr>cmdvec := cmdvec inp, background := background inp, internal := internal inp\<rparr>]"
  by (simp add: record_hist_def)

lemma repl_step_bound:
  assumes "0 < BUFSIZ" and "BUFSIZ < 2 ^ 31" and "length (histlist s) \<le> BUFSIZ"
  shows "length (histlist (shell_of (repl_step BUFSIZ w s))) \<le> BUFSIZ"
proof -
  have "length hl \<le> BUFSIZ \<and> length (record_hist inp hl) \<le> BUFSIZ"
    if "hist_alloc BUFSIZ (histlist s) = Inr hl" for hl inp
    using hist_alloc_length [OF assms that] by (auto simp: record_hist_shape)
  then show ?thesis
    using assms(3)
    by (auto simp: repl_step_histlist split: option.splits sum.splits)
qed

lemma repl_run_bound:
  assumes "0 < BUFSIZ" and "BUFSIZ < 2 ^ 31"
  shows "length (histlist s) \<le> BUFSIZ \<Longrightarrow>
         length (histlist (shell_of (repl_run BUFSIZ ws s))) \<le> BUFSIZ"
proof (induction ws arbitrary: s)
  case Nil
  then show ?case by simp
next
  case (Cons w ws)
  have b: "length (histlist (shell_of (repl_step BUFSIZ w s))) \<le> BUFSIZ"
    by (rule repl_step_bound [OF assms Cons.prems])
  show ?case
  proof (cases "repl_step BUFSIZ w s")
    case (Continue s')
    then show ?thesis using Cons.IH [of s'] b by simp
  next
    case (Halt r s')
    then show ?thesis using b by simp
  qed
qed

text \<open>
  C7. Whatever lines are read, the history list never holds more than \<open>BUFSIZ\<close> nodes;
  a step leaves the list as it was or appends one node, and an append to a list of
  \<open>BUFSIZ\<close> nodes drops exactly the head. A line that is not blank appends (when the
  sweep before it did not fault).
\<close>

theorem history_bounded_fifo:
  assumes "0 < BUFSIZ" and "BUFSIZ < 2 ^ 31"
  shows "length (histlist (shell_of (repl_run BUFSIZ ws (init_shell env)))) \<le> BUFSIZ
    \<and> (\<forall>w s. length (histlist s) \<le> BUFSIZ \<longrightarrow>
          histlist (shell_of (repl_step BUFSIZ w s)) = histlist s
          \<or> (\<exists>e. histlist (shell_of (repl_step BUFSIZ w s))
                  = (if length (histlist s) = BUFSIZ then tl (histlist s) else histlist s) @ [e]))
    \<and> (\<forall>w s line. w_line w = Some line \<and> \<not> blank (line @ [NUL])
          \<and> fst (sweep (w_poll w) (jheap s) (joblist s)) = None
          \<and> length (histlist s) \<le> BUFSIZ \<and> 1 < BUFSIZ \<longrightarrow>
          (\<exists>e. histlist (shell_of (repl_step BUFSIZ w s))
                  = (if length (histlist s) = BUFSIZ then tl (histlist s) else histlist s) @ [e]))"
proof -
  have 1: "length (histlist (shell_of (repl_run BUFSIZ ws (init_shell env)))) \<le> BUFSIZ"
    by (rule repl_run_bound [OF assms]) (simp add: init_shell_def)
  have shape: "\<exists>e. hl = (if length (histlist s) = BUFSIZ then tl (histlist s) else histlist s) @ [e]
      \<and> (\<forall>inp. \<exists>e. record_hist inp hl
            = (if length (histlist s) = BUFSIZ then tl (histlist s) else histlist s) @ [e])"
    if "length (histlist s) \<le> BUFSIZ" "hist_alloc BUFSIZ (histlist s) = Inr hl" for s hl
    using hist_alloc_length [OF assms that] by (auto simp: record_hist_shape)
  have 2: "histlist (shell_of (repl_step BUFSIZ w s)) = histlist s
          \<or> (\<exists>e. histlist (shell_of (repl_step BUFSIZ w s))
                  = (if length (histlist s) = BUFSIZ then tl (histlist s) else histlist s) @ [e])"
    if "length (histlist s) \<le> BUFSIZ" for w s
  proof (cases "hist_alloc BUFSIZ (histlist s)")
    case (Inl f)
    then show ?thesis by (auto simp: repl_step_histlist split: option.splits)
  next
    case (Inr hl)
    then show ?thesis
      using shape [OF that Inr]
      by (auto simp: repl_step_histlist split: option.splits)
  qed
  have 3: "\<exists>e. histlist (shell_of (repl_step BUFSIZ w s))
                  = (if length (histlist s) = BUFSIZ then tl (histlist s) else histlist s) @ [e]"
    if "w_line w = Some line" "\<not> blank (line @ [NUL])"
      "fst (sweep (w_poll w) (jheap s) (joblist s)) = None"
      "length (histlist s) \<le> BUFSIZ" "1 < BUFSIZ" for w s line
  proof -
    note prem = that
    obtain hl where ha: "hist_alloc BUFSIZ (histlist s) = Inr hl"
      using hist_alloc_ok [OF prem(5)] by blast
    show ?thesis
      using shape [OF prem(4) ha] prem(1,2,3) ha
      by (auto simp: repl_step_histlist split: option.splits)
  qed
  show ?thesis using 1 2 3 by blast
qed

text \<open>C7, an instance. With \<open>BUFSIZ = 2\<close> the three lines leave the last two.\<close>

theorem history_bounded_fifo_witness:
  "(0::nat) < 2 \<and> (2::nat) < 2 ^ 31
   \<and> length (histlist (shell_of (repl_run 2 three_lines (init_shell [])))) \<le> 2
   \<and> histlist (shell_of (repl_run 2 three_lines (init_shell [])))
       = [echo_entry ''echo hi'', echo_entry ''echo three'']"
proof -
  have a: "(0::nat) < 2" and b: "(2::nat) < 2 ^ 31" by simp_all
  have "histlist (shell_of (repl_run 2 three_lines (init_shell [])))
       = [echo_entry ''echo hi'', echo_entry ''echo three'']"
    by (simp add: eval_defs three_lines_def echo_entry_def)
  then show ?thesis
    using history_bounded_fifo [OF a b, THEN conjunct1, of three_lines "[]"] by simp
qed

lemma after_three_eq:
  "after_three =
     \<lparr>histlist = [echo_entry ''echo one'', echo_entry ''echo hi'', echo_entry ''echo three''],
      jheap = [], joblist = None, count_commands = 4, environ = [],
      out = [Stdout ('':-) Welcome to supersh. Type help for help.'' @ newline @ newline),
             Prompt 1 False, ReadLine (Some (''echo one'' @ newline)), Stdout (''one'' @ newline),
             Prompt 2 False, ReadLine (Some (''echo hi'' @ newline)), Stdout (''hi'' @ newline),
             Prompt 3 False, ReadLine (Some (''echo three'' @ newline)),
             Stdout (''three'' @ newline)]\<rparr>"
  by (simp add: after_three_def eval_defs three_lines_def echo_entry_def)

lemma tokens_empty_iff: "tokens line = [] \<longleftrightarrow> (\<forall>c\<in>set line. isspace c)"
  by (simp add: tokens.simps [of line] Let_def dropWhile_eq_Nil_conv)

text \<open>
  C6 (amended). The command counter is incremented exactly for the lines that are not
  blank, before the line is parsed and whether or not the parse succeeds (provided the
  sweep that precedes did not fault); a blank line, that is a line of white space only,
  and the end of the input leave it unchanged.
\<close>

theorem counter_counts_nonblank_lines:
  "count_commands (shell_of (repl_step BUFSIZ w s)) =
     (if (\<exists>line. w_line w = Some line \<and> \<not> blank (line @ [NUL]))
         \<and> fst (sweep (w_poll w) (jheap s) (joblist s)) = None
      then count_commands s + 1 else count_commands s)
   \<and> (\<forall>line. NUL \<notin> set line \<longrightarrow> (blank (line @ [NUL]) \<longleftrightarrow> (\<forall>c\<in>set line. isspace c)))"
  using repl_step_count blank_tokens tokens_empty_iff by simp

text \<open>C6, two instances. The line \<open>!0\<close>, whose parse fails, and a line of one space.\<close>

theorem counter_counts_nonblank_lines_witness:
  "count_commands (shell_of (repl_step 8192 (sample_world (Some (''!0'' @ newline)) 1)
      (init_shell []))) = count_commands (init_shell []) + 1
   \<and> count_commands (shell_of (repl_step 8192 (sample_world (Some ('' '' @ newline)) 1)
      (init_shell []))) = count_commands (init_shell [])"
  using counter_counts_nonblank_lines [of 8192 "sample_world (Some (''!0'' @ newline)) 1" "init_shell []"]
    counter_counts_nonblank_lines [of 8192 "sample_world (Some ('' '' @ newline)) 1" "init_shell []"]
  by (simp add: sample_world_def init_shell_def sweep_def blank_def strspn_def peek_def
      isspace_def NUL_def newline_def)

text \<open>C6 as stated fails on the line \<open>!0\<close> at the first prompt: \<open>parse_inbuf\<close>
  returns null and the counter goes from 1 to 2.\<close>

theorem failed_parse_counter_counterexample:
  "hist_alloc 8192 (histlist (init_shell [])) = Inr [calloc_Input]
   \<and> parsed (parse_inbuf [calloc_Input] ((''!0'' @ newline) @ [NUL])) = None
   \<and> count_commands (init_shell []) = 1
   \<and> count_commands (shell_of (repl_step 8192 (sample_world (Some (''!0'' @ newline)) 1)
        (init_shell []))) = 2"
  by (simp add: eval_defs)

text \<open>
  C3, on the code. The line \<open>!0\<close> at the first prompt: \<open>parse_inbuf\<close> returns null,
  and the history list, empty before, holds the zeroed node that \<open>main\<close> linked before
  parsing. A following \<open>history\<close> reads \<open>cmdvec[0]\<close> of that node through its null
  \<open>cmdvec\<close>. The same node makes the line \<open>!1\<close> at the first prompt, a reference beyond
  the stored entries, resolve: the record is the zeroed node, \<open>main\<close> forks, and the child
  reads \<open>cmdvec[0]\<close> through the null pointer.
\<close>

theorem failed_reference_leaves_empty_node:
  "histlist (init_shell []) = []
   \<and> histlist (shell_of (repl_step 8192 (sample_world (Some (''!0'' @ newline)) 1)
        (init_shell []))) = [calloc_Input]
   \<and> repl_run 8192 [sample_world (Some (''!0'' @ newline)) 1,
                    sample_world (Some (''history'' @ newline)) 1] (init_shell []) =
     Halt (Crashed NullDeref)
       \<lparr>histlist = [calloc_Input,
                    \<lparr>cmdvec = Some [Some ''history'', None], internal = Some Builtin_history,
                     background = False, historical = False\<rparr>],
        jheap = [], joblist = None, count_commands = 3, environ = [],
        out = [Stdout ('':-) Welcome to supersh. Type help for help.'' @ newline @ newline),
               Prompt 1 False, ReadLine (Some (''!0'' @ newline)), Perror ''strtoul'',
               Prompt 2 False, ReadLine (Some (''history'' @ newline))]\<rparr>
   \<and> parsed (parse_inbuf [calloc_Input] ((''!1'' @ newline) @ [NUL]))
       = Some (calloc_Input\<lparr>historical := True\<rparr>)
   \<and> repl_step 8192 (sample_world (Some (''!1'' @ newline)) 0) (init_shell []) =
     Halt (Crashed NullDeref)
       \<lparr>histlist = [calloc_Input], jheap = [], joblist = None, count_commands = 2, environ = [],
        out = [Stdout ('':-) Welcome to supersh. Type help for help.'' @ newline @ newline),
               Prompt 1 False, ReadLine (Some (''!1'' @ newline)), Fork]\<rparr>"
  by (simp add: eval_defs)

subsection \<open>History references\<close>

text \<open>The shell after \<open>full_lines\<close>: the list holds 8192 nodes, the oldest is that of
  \<open>echo one\<close>.\<close>

lemma sweep_no_jobs: "sweep wp [] None = (None, [], None, [])"
  by (simp add: sweep_def)

lemma parse_echo_hi:
  "\<exists>buf. parse_inbuf hl ((''echo hi'' @ newline) @ [NUL]) = ParseOk (echo_entry ''echo hi'') buf
     \<and> cstr buf 0 = ''echo hi''"
  by (simp add: parse_inbuf_def builtin_of_def background_op_def strchr_def cstr_def strlen_def
      peek_def isspace_def NUL_def newline_def Let_def echo_entry_def)

lemma echo_hi_step:
  assumes "jheap s = []" and "joblist s = None" and "length (histlist s) < 8192"
  shows "\<exists>s'. repl_step 8192 (sample_world (Some (''echo hi'' @ newline)) 1) s = Continue s'
           \<and> histlist s' = histlist s @ [echo_entry ''echo hi'']
           \<and> jheap s' = [] \<and> joblist s' = None
           \<and> count_commands s' = count_commands s + 1"
proof -
  let ?w = "sample_world (Some (''echo hi'' @ newline)) 1"
  let ?hl = "histlist s @ [calloc_Input]"
  have a: "w_line ?w = Some (''echo hi'' @ newline)" by (simp add: sample_world_def)
  have b: "sweep (w_poll ?w) (jheap s) (joblist s) = (None, [], None, [])"
    using assms by (simp add: sweep_no_jobs)
  have c: "\<not> blank ((''echo hi'' @ newline) @ [NUL])"
    by (simp add: blank_def strspn_def peek_def isspace_def NUL_def newline_def)
  have d: "hist_alloc 8192 (histlist s) = Inr ?hl"
    using assms(3) by (simp add: hist_alloc_ok)
  obtain buf where e: "parse_inbuf ?hl ((''echo hi'' @ newline) @ [NUL])
      = ParseOk (echo_entry ''echo hi'') buf" and f: "cstr buf 0 = ''echo hi''"
    using parse_echo_hi by blast
  show ?thesis
    unfolding repl_step_parsed [OF a b c d e] f
    by (simp add: dispatch_def run_builtin_def builtin_echo_def emit_def echo_entry_def
        record_hist_def calloc_Input_def Let_def)
qed

lemma echo_hi_run:
  "jheap s = [] \<Longrightarrow> joblist s = None \<Longrightarrow> length (histlist s) + n \<le> 8192 \<Longrightarrow>
   histlist (shell_of (repl_run 8192 (replicate n (sample_world (Some (''echo hi'' @ newline)) 1)) s))
     = histlist s @ replicate n (echo_entry ''echo hi'')
   \<and> jheap (shell_of (repl_run 8192 (replicate n (sample_world (Some (''echo hi'' @ newline)) 1)) s)) = []
   \<and> joblist (shell_of (repl_run 8192 (replicate n (sample_world (Some (''echo hi'' @ newline)) 1)) s)) = None
   \<and> count_commands (shell_of (repl_run 8192 (replicate n (sample_world (Some (''echo hi'' @ newline)) 1)) s))
       = count_commands s + of_nat n"
proof (induction n arbitrary: s)
  case 0
  then show ?case by simp
next
  case (Suc n)
  obtain s' where st: "repl_step 8192 (sample_world (Some (''echo hi'' @ newline)) 1) s = Continue s'"
    and h: "histlist s' = histlist s @ [echo_entry ''echo hi'']"
    and j: "jheap s' = []" "joblist s' = None"
    and c: "count_commands s' = count_commands s + 1"
    using echo_hi_step [of s] Suc.prems by auto
  have len: "length (histlist s') + n \<le> 8192" using h Suc.prems(3) by simp
  show ?case
    using Suc.IH [OF j len] st h c by (simp add: replicate_app_Cons_same)
qed

lemma first_line:
  "repl_step 8192 (sample_world (Some (''echo one'' @ newline)) 1) (init_shell []) =
     Continue \<lparr>histlist = [echo_entry ''echo one''], jheap = [], joblist = None,
       count_commands = 2, environ = [],
       out = [Stdout ('':-) Welcome to supersh. Type help for help.'' @ newline @ newline),
              Prompt 1 False, ReadLine (Some (''echo one'' @ newline)), Stdout (''one'' @ newline)]\<rparr>"
  by (simp add: eval_defs echo_entry_def)

lemma full_store_eq:
  "histlist full_store = echo_entry ''echo one'' # replicate 8191 (echo_entry ''echo hi'')"
  "jheap full_store = []" "joblist full_store = None" "count_commands full_store = 8193"
proof -
  define s1 where "s1 = \<lparr>histlist = [echo_entry ''echo one''], jheap = [], joblist = None,
       count_commands = 2, environ = [],
       out = [Stdout ('':-) Welcome to supersh. Type help for help.'' @ newline @ newline),
              Prompt 1 False, ReadLine (Some (''echo one'' @ newline)), Stdout (''one'' @ newline)]\<rparr>"
  define ws where "ws = replicate 8191 (sample_world (Some (''echo hi'' @ newline)) 1)"
  have a: "jheap s1 = []" "joblist s1 = None" "length (histlist s1) + 8191 \<le> 8192"
    "histlist s1 = [echo_entry ''echo one'']" "count_commands s1 = 2"
    by (simp_all add: s1_def)
  have "repl_run 8192 full_lines (init_shell []) = repl_run 8192 ws s1"
    unfolding full_lines_def ws_def s1_def by (simp only: repl_run.simps first_line outcome.case)
  then have fs: "full_store = shell_of (repl_run 8192 ws s1)"
    by (simp add: full_store_def)
  note r = echo_hi_run [OF a(1) a(2) a(3), folded ws_def, folded fs]
  show "histlist full_store = echo_entry ''echo one'' # replicate 8191 (echo_entry ''echo hi'')"
    using r a(4) by simp
  show "jheap full_store = []" using r by simp
  show "joblist full_store = None" using r by simp
  show "count_commands full_store = 8193" using r a(5) by simp
qed

text \<open>
  C9, on the code. \<open>main\<close> links the node of the line being read, and at capacity
  unlinks the head, before \<open>parse_inbuf\<close> looks the reference up. With 8192 stored
  entries, the oldest that of \<open>echo one\<close> and the others of \<open>echo hi\<close>, the line \<open>!1\<close>
  prints \<open>hi\<close>: it runs the second stored entry, the first having been unlinked. The
  line \<open>!8192\<close> resolves to the zeroed node of the line itself: \<open>main\<close> forks, and the
  child reads \<open>cmdvec[0]\<close> through the null pointer. After \<open>echo one\<close> and a failed
  \<open>!0\<close>, \<open>history\<close> prints the first entry and reads the null \<open>cmdvec\<close> of the node the
  failed line left: its own entry, the third, is not printed.
\<close>

theorem reference_at_capacity_skips_an_entry:
  "length full_lines = 8192
   \<and> histlist full_store = echo_entry ''echo one'' # replicate 8191 (echo_entry ''echo hi'')
   \<and> out (shell_of (repl_step 8192 (sample_world (Some (''!1'' @ newline)) 1) full_store)) =
       out full_store @ [Prompt 8193 False, ReadLine (Some (''!1'' @ newline)),
                         Stdout (''hi'' @ newline)]
   \<and> halt_of (repl_step 8192 (sample_world (Some (''!1'' @ newline)) 1) full_store) = None
   \<and> out (shell_of (repl_step 8192 (sample_world (Some (''!8192'' @ newline)) 0) full_store)) =
       out full_store @ [Prompt 8193 False, ReadLine (Some (''!8192'' @ newline)), Fork]
   \<and> halt_of (repl_step 8192 (sample_world (Some (''!8192'' @ newline)) 0) full_store)
       = Some (Crashed NullDeref)
   \<and> repl_run 8192 [sample_world (Some (''echo one'' @ newline)) 1,
                    sample_world (Some (''!0'' @ newline)) 1,
                    sample_world (Some (''history'' @ newline)) 1] (init_shell []) =
     Halt (Crashed NullDeref)
       \<lparr>histlist = [echo_entry ''echo one'', calloc_Input,
                    \<lparr>cmdvec = Some [Some ''history'', None], internal = Some Builtin_history,
                     background = False, historical = False\<rparr>],
        jheap = [], joblist = None, count_commands = 4, environ = [],
        out = [Stdout ('':-) Welcome to supersh. Type help for help.'' @ newline @ newline),
               Prompt 1 False, ReadLine (Some (''echo one'' @ newline)), Stdout (''one'' @ newline),
               Prompt 2 False, ReadLine (Some (''!0'' @ newline)), Perror ''strtoul'',
               Prompt 3 False, ReadLine (Some (''history'' @ newline)),
               HistLine 1 (Some ''echo one'') False]\<rparr>"
proof -
  define hl where "hl = replicate 8191 (echo_entry ''echo hi'') @ [calloc_Input]"
  have len: "length hl = 8192" by (simp add: hl_def)
  have d: "hist_alloc 8192 (histlist full_store) = Inr hl"
    by (simp add: hist_alloc_ok full_store_eq hl_def)
  have b: "sweep (w_poll w) (jheap full_store) (joblist full_store) = (None, [], None, [])" for w
    by (simp add: full_store_eq sweep_no_jobs)
  have "find_event hl 0 1 = (1, Some (hl ! (1 - 0 - 1)))"
    by (rule find_event_hit) (simp_all add: len)
  then have f1: "find_event hl 0 (Suc 0) = (Suc 0, Some (echo_entry ''echo hi''))"
    by (simp add: hl_def nth_append)
  have "find_event hl 0 8192 = (8192, Some (hl ! (8192 - 0 - 1)))"
    by (rule find_event_hit) (simp_all add: len)
  then have f2: "find_event hl 0 8192 = (8192, Some calloc_Input)"
    by (simp add: hl_def nth_append)
  have p1: "\<exists>buf. parse_inbuf hl ((''!1'' @ newline) @ [NUL])
      = ParseOk ((echo_entry ''echo hi'')\<lparr>historical := True\<rparr>) buf"
    by (simp add: parse_inbuf_def builtin_of_def strchr_def cstr_def history_ref_def strcspn_def
        strtoul_def NUL_def isspace_def peek_def isdigit_def digits_value_def ULONG_MAX_def
        newline_def Let_def f1)
  have p2: "\<exists>buf. parse_inbuf hl ((''!8192'' @ newline) @ [NUL])
      = ParseOk (calloc_Input\<lparr>historical := True\<rparr>) buf"
    by (simp add: parse_inbuf_def builtin_of_def strchr_def cstr_def history_ref_def strcspn_def
        strtoul_def NUL_def isspace_def peek_def isdigit_def digits_value_def ULONG_MAX_def
        newline_def Let_def f2)
  have c: "\<not> blank ((''!1'' @ newline) @ [NUL])" "\<not> blank ((''!8192'' @ newline) @ [NUL])"
    by (simp_all add: blank_def strspn_def peek_def isspace_def NUL_def newline_def)
  obtain buf1 where e1: "parse_inbuf hl ((''!1'' @ newline) @ [NUL])
      = ParseOk ((echo_entry ''echo hi'')\<lparr>historical := True\<rparr>) buf1"
    using p1 by blast
  obtain buf2 where e2: "parse_inbuf hl ((''!8192'' @ newline) @ [NUL])
      = ParseOk (calloc_Input\<lparr>historical := True\<rparr>) buf2"
    using p2 by blast
  have a1: "w_line (sample_world (Some (''!1'' @ newline)) 1) = Some (''!1'' @ newline)"
    and a2: "w_line (sample_world (Some (''!8192'' @ newline)) 0) = Some (''!8192'' @ newline)"
    by (simp_all add: sample_world_def)
  note s1 = repl_step_parsed [OF a1 b c(1) d e1]
  note s2 = repl_step_parsed [OF a2 b c(2) d e2]
  have r1: "out (shell_of (repl_step 8192 (sample_world (Some (''!1'' @ newline)) 1) full_store)) =
       out full_store @ [Prompt 8193 False, ReadLine (Some (''!1'' @ newline)),
                         Stdout (''hi'' @ newline)]"
    "halt_of (repl_step 8192 (sample_world (Some (''!1'' @ newline)) 1) full_store) = None"
    unfolding s1
    by (simp_all add: dispatch_def run_builtin_def builtin_echo_def emit_def echo_entry_def
        full_store_eq sample_world_def)
  have r2: "out (shell_of (repl_step 8192 (sample_world (Some (''!8192'' @ newline)) 0) full_store)) =
       out full_store @ [Prompt 8193 False, ReadLine (Some (''!8192'' @ newline)), Fork]"
    "halt_of (repl_step 8192 (sample_world (Some (''!8192'' @ newline)) 0) full_store)
       = Some (Crashed NullDeref)"
    unfolding s2
    by (simp_all add: dispatch_def child_def emit_def calloc_Input_def Let_def
        full_store_eq sample_world_def)
  have r3: "repl_run 8192 [sample_world (Some (''echo one'' @ newline)) 1,
                    sample_world (Some (''!0'' @ newline)) 1,
                    sample_world (Some (''history'' @ newline)) 1] (init_shell []) =
     Halt (Crashed NullDeref)
       \<lparr>histlist = [echo_entry ''echo one'', calloc_Input,
                    \<lparr>cmdvec = Some [Some ''history'', None], internal = Some Builtin_history,
                     background = False, historical = False\<rparr>],
        jheap = [], joblist = None, count_commands = 4, environ = [],
        out = [Stdout ('':-) Welcome to supersh. Type help for help.'' @ newline @ newline),
               Prompt 1 False, ReadLine (Some (''echo one'' @ newline)), Stdout (''one'' @ newline),
               Prompt 2 False, ReadLine (Some (''!0'' @ newline)), Perror ''strtoul'',
               Prompt 3 False, ReadLine (Some (''history'' @ newline)),
               HistLine 1 (Some ''echo one'') False]\<rparr>"
    by (simp add: eval_defs echo_entry_def)
  have l: "length full_lines = 8192" by (simp add: full_lines_def)
  show ?thesis
    using l full_store_eq(1) r1 r2 r3 by blast
qed

lemma background_op_not_historical:
  "background_op buf i cl = ParseOk inp b \<Longrightarrow> \<not> historical inp"
  by (auto simp: background_op_def Let_def split: if_splits)

lemma parse_historical:
  assumes "parse_inbuf hl inb = ParseOk inp buf" and "historical inp"
  shows "\<exists>e\<in>set hl. inp = e\<lparr>historical := True\<rparr>"
proof -
  have nb: "builtin_of inb = None"
    using assms background_op_not_historical
    by (cases "builtin_of inb") (auto simp: parse_inbuf_def)
  obtain e0 where ex: "strchr inb 0 (CHR ''!'') = Some e0"
    using assms nb background_op_not_historical
    by (cases "strchr inb 0 (CHR ''!'')") (auto simp: parse_inbuf_def split: prod.splits)
  have "history_ref hl inb (Suc e0) = ParseOk inp buf"
    using assms(1) nb ex by (simp add: parse_inbuf_def)
  then show ?thesis
    by (auto simp: history_ref_def Let_def split: if_splits prod.splits option.splits
        dest: find_event_mem)
qed

lemma hist_alloc_last:
  "hist_alloc BUFSIZ hl0 = Inr hl \<Longrightarrow> hl \<noteq> [] \<and> last hl = calloc_Input"
  by (auto simp: hist_alloc_def split: if_splits)

lemma record_hist_replay:
  assumes "hl \<noteq> []" and "last hl = calloc_Input"
  shows "record_hist inp hl = butlast hl @ [inp\<lparr>historical := False\<rparr>]"
  using assms by (simp add: record_hist_def calloc_Input_def)

text \<open>
  C1 (amended). For a line that is a history reference resolving successfully, the record
  returned is a copy of a stored entry, and \<open>main\<close> records it like any other line: the
  node linked at the tail before parsing receives the resolved entry's arguments, handler
  and background flag, so the list ends with a copy of that entry. The command then runs
  with the resolved entry's effects: a built-in in the foreground is called on the line
  recorded in the entry, an external command is executed in the child with the recorded
  argument vector.
\<close>

theorem history_replay_is_recorded:
  assumes "w_line w = Some line"
    and "sweep (w_poll w) (jheap s) (joblist s) = (None, h, jl, ev)"
    and "\<not> blank (line @ [NUL])"
    and "hist_alloc BUFSIZ (histlist s) = Inr hl"
    and "parse_inbuf hl (line @ [NUL]) = ParseOk inp buf"
    and "historical inp"
  shows "(\<exists>e\<in>set hl. inp = e\<lparr>historical := True\<rparr>)
    \<and> histlist (shell_of (repl_step BUFSIZ w s)) = butlast hl @ [inp\<lparr>historical := False\<rparr>]
    \<and> length (histlist (shell_of (repl_step BUFSIZ w s))) = length hl
    \<and> repl_step BUFSIZ w s =
        dispatch w inp (cstr buf 0)
          (s\<lparr>jheap := h, joblist := jl,
             out := out s @ [Prompt (count_commands s) (w_uid w = 0), ReadLine (Some line)] @ ev,
             count_commands := count_commands s + 1,
             histlist := butlast hl @ [inp\<lparr>historical := False\<rparr>]\<rparr>)
    \<and> (\<forall>b arg args i s'. internal inp = Some b \<and> \<not> background inp
          \<and> cmdvec inp = Some (arg # args) \<longrightarrow>
          dispatch w inp i s' = run_builtin w b arg s')
    \<and> (\<forall>file args i s'. internal inp = None \<and> cmdvec inp = Some (file # args) \<and> w_fork w = 0
          \<longrightarrow>
          out (shell_of (dispatch w inp i s'))
            = out s' @ [Fork, Execvp file (file # args)]
                @ (if w_exec_returns w then [ExecFailed file (w_strerror w)] else []))"
proof -
  have 1: "\<exists>e\<in>set hl. inp = e\<lparr>historical := True\<rparr>"
    by (rule parse_historical [OF assms(5,6)])
  have rh: "record_hist inp hl = butlast hl @ [inp\<lparr>historical := False\<rparr>]"
    using hist_alloc_last [OF assms(4)] by (simp add: record_hist_replay)
  have 4: "repl_step BUFSIZ w s =
        dispatch w inp (cstr buf 0)
          (s\<lparr>jheap := h, joblist := jl,
             out := out s @ [Prompt (count_commands s) (w_uid w = 0), ReadLine (Some line)] @ ev,
             count_commands := count_commands s + 1,
             histlist := butlast hl @ [inp\<lparr>historical := False\<rparr>]\<rparr>)"
    using repl_step_parsed [OF assms(1-5)] rh by simp
  have 2: "histlist (shell_of (repl_step BUFSIZ w s)) = butlast hl @ [inp\<lparr>historical := False\<rparr>]"
    unfolding 4 by (simp add: dispatch_keeps)
  have 3: "length (histlist (shell_of (repl_step BUFSIZ w s))) = length hl"
    unfolding 2 using hist_alloc_last [OF assms(4)] by simp
  have 5: "\<forall>b arg args i s'. internal inp = Some b \<and> \<not> background inp
          \<and> cmdvec inp = Some (arg # args) \<longrightarrow>
          dispatch w inp i s' = run_builtin w b arg s'"
    using assms(6) by (simp add: dispatch_def)
  have 6: "\<forall>file args i s'. internal inp = None \<and> cmdvec inp = Some (file # args) \<and> w_fork w = 0
          \<longrightarrow>
          out (shell_of (dispatch w inp i s'))
            = out s' @ [Fork, Execvp file (file # args)]
                @ (if w_exec_returns w then [ExecFailed file (w_strerror w)] else [])"
    by (simp add: dispatch_def child_def emit_def Let_def)
  show ?thesis using 1 2 3 4 5 6 by blast
qed

text \<open>C1, an instance. The line \<open>!2\<close> after three \<open>echo\<close> lines.\<close>

theorem history_replay_is_recorded_witness:
  "histlist (shell_of (repl_step 8192 (sample_world (Some (''!2'' @ newline)) 1) after_three))
     = [echo_entry ''echo one'', echo_entry ''echo hi'', echo_entry ''echo three'',
        echo_entry ''echo hi'']
   \<and> length (histlist after_three) = 3"
proof -
  define w where "w = sample_world (Some (''!2'' @ newline)) 1"
  define hl where "hl = [echo_entry ''echo one'', echo_entry ''echo hi'',
                         echo_entry ''echo three'', calloc_Input]"
  define inp where "inp = (echo_entry ''echo hi'')\<lparr>historical := True\<rparr>"
  define buf where "buf = ''!2'' @ [NUL, NUL]"
  have a: "w_line w = Some (''!2'' @ newline)" by (simp add: w_def sample_world_def)
  have b: "sweep (w_poll w) (jheap after_three) (joblist after_three) = (None, [], None, [])"
    by (simp add: after_three_eq sweep_def)
  have c: "\<not> blank ((''!2'' @ newline) @ [NUL])"
    by (simp add: blank_def strspn_def isspace_def peek_def NUL_def)
  have d: "hist_alloc 8192 (histlist after_three) = Inr hl"
    by (simp add: after_three_eq hist_alloc_def hl_def)
  have e: "parse_inbuf hl ((''!2'' @ newline) @ [NUL]) = ParseOk inp buf"
    by (simp add: hl_def inp_def buf_def eval_defs echo_entry_def)
  have f: "historical inp" by (simp add: inp_def)
  have "histlist (shell_of (repl_step 8192 w after_three))
      = butlast hl @ [inp\<lparr>historical := False\<rparr>]"
    using history_replay_is_recorded [OF a b c d e f] by (rule conjunct2 [THEN conjunct1])
  moreover have "butlast hl @ [inp\<lparr>historical := False\<rparr>]
      = [echo_entry ''echo one'', echo_entry ''echo hi'', echo_entry ''echo three'',
         echo_entry ''echo hi'']"
    by (simp add: hl_def inp_def echo_entry_def)
  moreover have "length (histlist after_three) = 3" by (simp add: after_three_eq)
  ultimately show ?thesis by (simp add: w_def)
qed

text \<open>C1 as stated fails there: after three lines the list has three nodes, and the line
  \<open>!2\<close> prints \<open>hi\<close> and leaves four.\<close>

theorem history_replay_not_recorded_counterexample:
  "histlist after_three
     = [echo_entry ''echo one'', echo_entry ''echo hi'', echo_entry ''echo three'']
   \<and> repl_step 8192 (sample_world (Some (''!2'' @ newline)) 1) after_three =
     Continue
       \<lparr>histlist = [echo_entry ''echo one'', echo_entry ''echo hi'', echo_entry ''echo three'',
                    echo_entry ''echo hi''],
        jheap = [], joblist = None, count_commands = 5, environ = [],
        out = out after_three
              @ [Prompt 4 False, ReadLine (Some (''!2'' @ newline)), Stdout (''hi'' @ newline)]\<rparr>"
  by (simp add: after_three_eq) (simp add: eval_defs echo_entry_def)

subsection \<open>The sweep of the job list\<close>

lemma one_job_eq:
  "one_job =
     \<lparr>histlist = [\<lparr>cmdvec = Some [Some ''sleep'', Some ''9'', None, None], internal = None,
                   background = True, historical = False\<rparr>],
      jheap = [Live \<lparr>pid = 7, cmdbuf = ''sleep'', jnext = None\<rparr>], joblist = Some 0,
      count_commands = 2, environ = [],
      out = [Stdout ('':-) Welcome to supersh. Type help for help.'' @ newline @ newline),
             Prompt 1 False, ReadLine (Some (''sleep 9 &'' @ newline)), Fork,
             BeginJob 7 1 ''sleep'']\<rparr>"
  by (simp add: one_job_def eval_defs)

lemma two_jobs_fact:
  "jheap two_jobs = [Live \<lparr>pid = 7, cmdbuf = ''sleep'', jnext = Some 1\<rparr>,
                    Live \<lparr>pid = 8, cmdbuf = ''true'', jnext = None\<rparr>]
   \<and> joblist two_jobs = Some 0"
  by (simp add: two_jobs_def one_job_eq) (simp add: eval_defs)

lemma ex_sweep:
  "sweep second_exited (jheap two_jobs) (joblist two_jobs) =
     (None, [Freed, Live \<lparr>pid = 8, cmdbuf = ''true'', jnext = None\<rparr>], None,
      [Poll 7, Poll 8, EndJob 8 2 ''true'' 0])"
  by (simp add: two_jobs_fact sweep_def second_exited_def deref_def unlink_exited_def Let_def)

lemma quiet_refl: "quiet s s"
  by (simp add: quiet_def)

lemma quiet_out: "out s' = out s @ evs \<Longrightarrow> \<forall>e\<in>set evs. \<not> is_poll e \<Longrightarrow> quiet s s'"
  by (auto simp: quiet_def)

lemma builtin_history_quiet: "\<forall>e\<in>set (snd (builtin_history hl cnt)). \<not> is_poll e"
proof (induction hl arbitrary: cnt)
  case Nil
  then show ?case by simp
next
  case (Cons hp rest)
  have ih: "\<forall>e\<in>set (snd (builtin_history rest (cnt + 1))). \<not> is_poll e"
    by (rule Cons.IH)
  show ?case
    by (cases "builtin_history rest (cnt + 1)")
      (use ih in \<open>auto split: option.splits list.splits\<close>)
qed

lemma builtin_jobs_quiet: "\<forall>e\<in>set (snd (builtin_jobs fuel h jl cnt)). \<not> is_poll e"
proof (induction fuel h jl cnt rule: builtin_jobs.induct)
  case (1 fuel h cnt)
  then show ?case by simp
next
  case (2 h a cnt)
  then show ?case by simp
next
  case (3 fuel h a cnt)
  then show ?case by (auto split: sum.splits prod.splits)
qed

lemma builtin_set_quiet: "\<forall>e\<in>set (snd (snd (builtin_set u line env))). \<not> is_poll e"
  by (auto simp: builtin_set_def Let_def shfault_def)

lemma run_builtin_quiet: "quiet s (shell_of (run_builtin w b arg s))"
proof (cases b)
  case Builtin_echo
  then show ?thesis
    by (auto simp: run_builtin_def builtin_echo_def emit_def quiet_def
        split: option.splits list.splits)
next
  case Builtin_exit
  then show ?thesis
    by (auto simp: run_builtin_def quiet_def split: option.splits sum.splits)
next
  case Builtin_help
  then show ?thesis
    by (auto simp: run_builtin_def builtin_help_def emit_def quiet_def)
next
  case Builtin_history
  obtain f ev where r: "builtin_history (histlist s) 0 = (f, ev)"
    by (cases "builtin_history (histlist s) 0")
  then have "\<forall>e\<in>set ev. \<not> is_poll e"
    using builtin_history_quiet [of "histlist s" 0] by simp
  then show ?thesis
    using Builtin_history r
    by (cases f) (auto simp: run_builtin_def emit_def intro!: quiet_out)
next
  case Builtin_jobs
  obtain f ev where r: "builtin_jobs (length (jheap s)) (jheap s) (joblist s) 0 = (f, ev)"
    by (cases "builtin_jobs (length (jheap s)) (jheap s) (joblist s) 0")
  then have "\<forall>e\<in>set ev. \<not> is_poll e"
    using builtin_jobs_quiet [of "length (jheap s)" "jheap s" "joblist s" 0] by simp
  then show ?thesis
    using Builtin_jobs r
    by (cases f) (auto simp: run_builtin_def emit_def intro!: quiet_out)
next
  case Builtin_set
  show ?thesis
  proof (cases arg)
    case None
    then show ?thesis using Builtin_set by (simp add: run_builtin_def quiet_refl)
  next
    case (Some line)
    obtain f env ev where r: "builtin_set (w_usable w) line (environ s) = (f, env, ev)"
      by (cases "builtin_set (w_usable w) line (environ s)")
    then have "\<forall>e\<in>set ev. \<not> is_poll e"
      using builtin_set_quiet [of "w_usable w" line "environ s"] by simp
    then show ?thesis
      using Builtin_set Some r
      by (cases f) (auto simp: run_builtin_def emit_def intro!: quiet_out)
  qed
qed

lemma quiet_after_emit:
  "quiet (emit ev s) s' \<Longrightarrow> \<forall>e\<in>set ev. \<not> is_poll e \<Longrightarrow> quiet s s'"
  by (auto simp: quiet_def emit_def)

lemma child_quiet: "quiet s (shell_of (child w inp i s))"
proof (cases "internal inp")
  case None
  then show ?thesis
    by (auto simp: child_def emit_def Let_def quiet_refl intro!: quiet_out
        split: option.splits list.splits)
next
  case (Some b)
  then show ?thesis
    using run_builtin_quiet [of s w b "Some i"]
    by (cases "run_builtin w b (Some i) s") (auto simp: child_def)
qed

lemma job_insert_quiet: "quiet s (shell_of (job_insert w p i s))"
  by (auto simp: job_insert_def emit_def Let_def quiet_refl intro!: quiet_out
      split: sum.splits option.splits prod.splits)

lemma wait_handler_quiet: "\<forall>e\<in>set (wait_handler st). \<not> is_poll e"
  by (auto simp: wait_handler_def split: wstatus.splits)

lemma dispatch_quiet: "quiet s (shell_of (dispatch w inp i s))"
proof -
  have f: "\<forall>e\<in>set [Fork]. \<not> is_poll e" by simp
  have 1: "quiet s (shell_of (child w inp i (emit [Fork] s)))"
    by (rule quiet_after_emit [OF child_quiet f])
  have 2: "quiet s (shell_of (job_insert w (w_fork w) i (emit [Fork] s)))"
    by (rule quiet_after_emit [OF job_insert_quiet f])
  show ?thesis
    using 1 2 run_builtin_quiet wait_handler_quiet [of "w_wait w"]
    by (auto simp: dispatch_def Let_def quiet_refl shfault_def emit_def intro!: quiet_out
        split: option.splits list.splits)
qed

lemma parse_null_quiet:
  assumes "parse_inbuf hl inb = ParseNull pev buf"
  shows "\<forall>e\<in>set pev. \<not> is_poll e"
proof -
  have bo: "background_op b i cl \<noteq> ParseNull pev buf" for b i cl
    by (auto simp: background_op_def Let_def)
  have hr: "history_ref hl inb exc = ParseNull pev buf \<Longrightarrow> \<forall>e\<in>set pev. \<not> is_poll e" for exc
    by (auto simp: history_ref_def Let_def split: if_splits prod.splits option.splits)
  show ?thesis
    using assms bo hr
    by (auto simp: parse_inbuf_def Let_def split: if_splits option.splits prod.splits)
qed

text \<open>
  C4 (amended). In every iteration the prompt is printed and the line is read first; the
  job list is swept after that, once, and only when a line was read (not at the end of
  the input); nothing later in the iteration polls a job. So the completion of a
  background job is reported after the next line has been entered.
\<close>

theorem read_precedes_sweep:
  "\<exists>rest. (\<forall>e\<in>set rest. \<not> is_poll e)
     \<and> out (shell_of (repl_step BUFSIZ w s)) =
         out s @ [Prompt (count_commands s) (w_uid w = 0), ReadLine (w_line w)]
           @ (case w_line w of
                None \<Rightarrow> []
              | Some line \<Rightarrow> snd (snd (snd (sweep (w_poll w) (jheap s) (joblist s)))))
           @ rest"
proof (cases "w_line w")
  case None
  then have "out (shell_of (repl_step BUFSIZ w s)) =
      out s @ [Prompt (count_commands s) (w_uid w = 0), ReadLine (w_line w)] @ [] @ []"
    by (simp add: repl_step_def emit_def)
  then show ?thesis using None by auto
next
  case (Some line)
  obtain f h jl ev where sw: "sweep (w_poll w) (jheap s) (joblist s) = (f, h, jl, ev)"
    by (cases "sweep (w_poll w) (jheap s) (joblist s)") auto
  define pre where "pre = out s @ [Prompt (count_commands s) (w_uid w = 0), ReadLine (w_line w)] @ ev"
  have goal: "?thesis" if "\<exists>rest. (\<forall>e\<in>set rest. \<not> is_poll e)
      \<and> out (shell_of (repl_step BUFSIZ w s)) = pre @ rest"
    using that Some sw by (auto simp: pre_def)
  show ?thesis
  proof (cases f)
    case (Some fl)
    then have "out (shell_of (repl_step BUFSIZ w s)) = pre @ []"
      using \<open>w_line w = Some line\<close> sw by (simp add: repl_step_def emit_def Let_def pre_def)
    then have "\<exists>rest. (\<forall>e\<in>set rest. \<not> is_poll e)
            \<and> out (shell_of (repl_step BUFSIZ w s)) = pre @ rest"
          by (intro exI [of _ "[]"]) simp
        then show ?thesis by (rule goal)
  next
    case None
    note sw' = sw [unfolded None]
    show ?thesis
    proof (cases "blank (line @ [NUL])")
      case True
      have "out (shell_of (repl_step BUFSIZ w s)) = pre @ []"
        unfolding repl_step_blank [OF \<open>w_line w = Some line\<close> sw' True]
        using \<open>w_line w = Some line\<close> by (simp add: pre_def)
      then have "\<exists>rest. (\<forall>e\<in>set rest. \<not> is_poll e)
            \<and> out (shell_of (repl_step BUFSIZ w s)) = pre @ rest"
          by (intro exI [of _ "[]"]) simp
        then show ?thesis by (rule goal)
    next
      case False
      show ?thesis
      proof (cases "hist_alloc BUFSIZ (histlist s)")
        case (Inl fl)
        then have "out (shell_of (repl_step BUFSIZ w s)) = pre @ []"
          using \<open>w_line w = Some line\<close> sw' False
          by (simp add: repl_step_def emit_def Let_def pre_def)
        then have "\<exists>rest. (\<forall>e\<in>set rest. \<not> is_poll e)
            \<and> out (shell_of (repl_step BUFSIZ w s)) = pre @ rest"
          by (intro exI [of _ "[]"]) simp
        then show ?thesis by (rule goal)
      next
        case (Inr hl)
        show ?thesis
        proof (cases "parse_inbuf hl (line @ [NUL])")
          case ParseFault
          then have "out (shell_of (repl_step BUFSIZ w s)) = pre @ []"
            using \<open>w_line w = Some line\<close> sw' False Inr
            by (simp add: repl_step_def emit_def Let_def pre_def)
          then have "\<exists>rest. (\<forall>e\<in>set rest. \<not> is_poll e)
            \<and> out (shell_of (repl_step BUFSIZ w s)) = pre @ rest"
          by (intro exI [of _ "[]"]) simp
        then show ?thesis by (rule goal)
        next
          case (ParseNull pev buf)
          have "out (shell_of (repl_step BUFSIZ w s)) = pre @ pev"
            unfolding repl_step_parse_null [OF \<open>w_line w = Some line\<close> sw' False Inr ParseNull]
            using \<open>w_line w = Some line\<close> by (simp add: pre_def)
          then have "\<exists>rest. (\<forall>e\<in>set rest. \<not> is_poll e)
              \<and> out (shell_of (repl_step BUFSIZ w s)) = pre @ rest"
            using parse_null_quiet [OF ParseNull] by (intro exI [of _ pev]) simp
          then show ?thesis by (rule goal)
        next
          case (ParseOk inp buf)
          define s6 where "s6 = s\<lparr>jheap := h, joblist := jl,
                out := out s @ [Prompt (count_commands s) (w_uid w = 0), ReadLine (Some line)] @ ev,
                count_commands := count_commands s + 1,
                histlist := record_hist inp hl\<rparr>"
          have st: "repl_step BUFSIZ w s = dispatch w inp (cstr buf 0) s6"
            unfolding s6_def
            by (rule repl_step_parsed [OF \<open>w_line w = Some line\<close> sw' False Inr ParseOk])
          have "out s6 = pre" using \<open>w_line w = Some line\<close> by (simp add: s6_def pre_def)
          then obtain evs where "out (shell_of (dispatch w inp (cstr buf 0) s6)) = pre @ evs"
            and "\<forall>e\<in>set evs. \<not> is_poll e"
            using dispatch_quiet [of s6 w inp "cstr buf 0"] by (auto simp: quiet_def)
          then have "\<exists>rest. (\<forall>e\<in>set rest. \<not> is_poll e)
              \<and> out (shell_of (repl_step BUFSIZ w s)) = pre @ rest"
            unfolding st by (intro exI [of _ evs]) simp
          then show ?thesis by (rule goal)
        qed
      qed
    qed
  qed
qed

text \<open>C4 as stated fails with one job in the list and an empty line: the poll of the
  job comes after the read.\<close>

theorem sweep_before_read_counterexample:
  "out (shell_of (repl_step 8192 (sample_world (Some newline) 1) one_job)) =
     out one_job @ [Prompt 2 False, ReadLine (Some newline), Poll 7]"
  by (simp add: one_job_eq) (simp add: eval_defs)

text \<open>C4, an instance. Two jobs, the second one exited, and an empty line.\<close>

theorem read_precedes_sweep_witness:
  "out (shell_of (repl_step 8192 ((sample_world (Some newline) 1)\<lparr>w_poll := second_exited\<rparr>)
      two_jobs)) =
     out two_jobs @ [Prompt 3 False, ReadLine (Some newline)]
       @ [Poll 7, Poll 8, EndJob 8 2 ''true'' 0]"
proof -
  have "repl_step 8192 ((sample_world (Some newline) 1)\<lparr>w_poll := second_exited\<rparr>) two_jobs =
      Continue (two_jobs\<lparr>jheap := [Freed, Live \<lparr>pid = 8, cmdbuf = ''true'', jnext = None\<rparr>],
        joblist := None,
        out := out two_jobs @ [Prompt (count_commands two_jobs) False, ReadLine (Some newline)]
               @ [Poll 7, Poll 8, EndJob 8 2 ''true'' 0]\<rparr>)"
    by (simp add: repl_step_def ex_sweep sample_world_def emit_def Let_def blank_def strspn_def
        peek_def newline_def isspace_def NUL_def)
  moreover have "count_commands two_jobs = 3"
    by (simp add: two_jobs_def one_job_eq repl_step_count sample_world_def blank_def strspn_def
        peek_def newline_def isspace_def NUL_def sweep_def deref_def)
  ultimately show ?thesis
    using read_precedes_sweep
      [of 8192 "(sample_world (Some newline) 1)\<lparr>w_poll := second_exited\<rparr>" two_jobs]
    by simp
qed

text \<open>
  C2, on the code. Two jobs, the first still running and the second exited: the sweep
  reports the second, then frees the head of the list and sets \<open>joblist\<close> to null,
  since the exited node has no successor. The running job is gone from the list (and
  \<open>jobs\<close> prints nothing), the exited one is not freed.
\<close>

theorem sweep_drops_running_job:
  "jheap two_jobs = [Live \<lparr>pid = 7, cmdbuf = ''sleep'', jnext = Some 1\<rparr>,
                    Live \<lparr>pid = 8, cmdbuf = ''true'', jnext = None\<rparr>]
   \<and> joblist two_jobs = Some 0
   \<and> second_exited 7 = StillRunning \<and> second_exited 8 = Reaped (WExited 0)
   \<and> sweep second_exited (jheap two_jobs) (joblist two_jobs) =
       (None, [Freed, Live \<lparr>pid = 8, cmdbuf = ''true'', jnext = None\<rparr>], None,
        [Poll 7, Poll 8, EndJob 8 2 ''true'' 0])
   \<and> builtin_jobs 2 [Freed, Live \<lparr>pid = 8, cmdbuf = ''true'', jnext = None\<rparr>] None 0 = (None, [])"
  using two_jobs_fact ex_sweep by (simp add: second_exited_def)

text \<open>
  C8, on the code. The line \<open>set =x\<close>: the syntax error is printed and the function
  goes on; with an allocator that leaves room for the copy the binding \<open>=x\<close> is passed
  to \<open>putenv\<close> and the environment has one more entry, and with the single byte that was
  asked for the copy overruns the block.
\<close>

theorem set_equals_is_not_rejected:
  "repl_step 8192 (sample_world (Some (''set =x'' @ newline)) 1) (init_shell [''HOME=/root'']) =
     Continue
       \<lparr>histlist = [\<lparr>cmdvec = Some [Some ''set =x'', None], internal = Some Builtin_set,
                     background = False, historical = False\<rparr>],
        jheap = [], joblist = None, count_commands = 2,
        environ = [''HOME=/root'', ''=x''],
        out = [Stdout ('':-) Welcome to supersh. Type help for help.'' @ newline @ newline),
               Prompt 1 False, ReadLine (Some (''set =x'' @ newline)),
               Stderr (''supersh: '' @ syntax_error_msg @ newline)]\<rparr>
   \<and> builtin_set 1 ''set =x'' [''HOME=/root'']
       = (Some HeapOverflow, [''HOME=/root''], [Stderr (''supersh: '' @ syntax_error_msg @ newline)])"
  by (simp add: eval_defs builtin_set_def env_name_def)

end
